theory Spec2Isabelle
  imports Main
begin

section \<open>JavaScript strings\<close>

text \<open>
  A JavaScript string is a sequence of UTF-16 code units: \<open>length\<close>, \<open>slice\<close>,
  indexing and the regular expression engine (without the \<open>u\<close> flag) all count code
  units. A code unit is modelled by its number, a string by the list of its code units.
  The program only copies and compares code units, it never computes one.
  \<open>js\<close> reads a literal of the source text.
\<close>

type_synonym jsstring = "nat list"

definition js :: "string \<Rightarrow> jsstring" where
  "js s = map of_char s"

text \<open>
  The class \<open>\s\<close>: the WhiteSpace and LineTerminator code units of ECMAScript
  (tab, LF, VT, FF, CR, space, U+00A0, U+1680, U+2000 to U+200A, U+2028, U+2029, U+202F,
  U+205F, U+3000, U+FEFF).
\<close>

definition is_space :: "nat \<Rightarrow> bool" where
  "is_space c =
     (if (9 \<le> c \<and> c \<le> 13) then True
      else if c = 32 then True
      else if c = 160 then True
      else if c = 5760 then True
      else if (8192 \<le> c \<and> c \<le> 8202) then True
      else if c = 8232 then True
      else if c = 8233 then True
      else if c = 8239 then True
      else if c = 8287 then True
      else if c = 12288 then True
      else c = 65279)"

text \<open>The class \<open>[A-Za-z0-9_]\<close>.\<close>

definition is_word :: "nat \<Rightarrow> bool" where
  "is_word c =
     (if (65 \<le> c \<and> c \<le> 90) then True
      else if (97 \<le> c \<and> c \<le> 122) then True
      else if (48 \<le> c \<and> c \<le> 57) then True
      else c = 95)"

section \<open>The call pattern\<close>

text \<open>
  Both methods scan with the same regular expression
  \<^verbatim>\<open>/(React\.createElement|e)\s*\(\s*(?:(["'])([A-Za-z0-9_]+)\2|([A-Za-z0-9_]+))\s*,\s*{/g\<close>.
  The functions below match it at the start of a string, piece by piece and in the
  pattern's order. The backtracking matcher of JavaScript has no second choice anywhere in
  this pattern: the two call spellings start with different code units; a greedy \<open>\s*\<close>
  is followed by a piece that starts with a code unit outside \<open>\s\<close>; a greedy
  \<open>[A-Za-z0-9_]+\<close> is followed by a piece that starts outside the class; and the
  quoted and the bare first argument start with different code units. So the first way
  tried is the only way, and a match at a position is unique.

  Each piece returns what is left of the string after it.
\<close>

text \<open>Group 1, \<open>(React\.createElement|e)\<close>: the first alternative is tried first.\<close>

definition match_callee :: "jsstring \<Rightarrow> jsstring option" where
  "match_callee s =
     (if take 19 s = js ''React.createElement'' then Some (drop 19 s)
      else if take 1 s = js ''e'' then Some (drop 1 s)
      else None)"

text \<open>The greedy \<open>\s*\<close>.\<close>

definition skip_spaces :: "jsstring \<Rightarrow> jsstring" where
  "skip_spaces s = dropWhile is_space s"

text \<open>One literal code unit: \<open>\(\<close>, \<open>,\<close> and \<open>{\<close>.\<close>

definition expect :: "nat \<Rightarrow> jsstring \<Rightarrow> jsstring option" where
  "expect c s = (case s of [] \<Rightarrow> None | d # r \<Rightarrow> if d = c then Some r else None)"

text \<open>
  The first argument, \<open>(?:(["'])([A-Za-z0-9_]+)\2|([A-Za-z0-9_]+))\<close>: it returns groups 3
  and 4 and the rest. A group that took no part in the match is \<open>undefined\<close> in
  JavaScript, \<open>None\<close> here. Group 2 is the opening quote; \<open>\2\<close> asks for the same
  code unit again.
\<close>

definition match_arg :: "jsstring \<Rightarrow> (jsstring option \<times> jsstring option \<times> jsstring) option" where
  "match_arg s =
     (case s of
        [] \<Rightarrow> None
      | q # r \<Rightarrow>
          if q = 34 \<or> q = 39 then
            (let w = takeWhile is_word r in
             if w = [] then None
             else (case expect q (dropWhile is_word r) of
                     None \<Rightarrow> None
                   | Some r' \<Rightarrow> Some (Some w, None, r')))
          else
            (let w = takeWhile is_word s in
             if w = [] then None
             else Some (None, Some w, dropWhile is_word s)))"

text \<open>
  The whole pattern at the start of \<open>s\<close>: the matched text \<open>match[0]\<close> and the groups
  3 and 4.
\<close>

definition match_here :: "jsstring \<Rightarrow> (jsstring \<times> jsstring option \<times> jsstring option) option" where
  "match_here s =
     (case match_callee s of
        None \<Rightarrow> None
      | Some s1 \<Rightarrow>
          (case expect 40 (skip_spaces s1) of
             None \<Rightarrow> None
           | Some s2 \<Rightarrow>
               (case match_arg (skip_spaces s2) of
                  None \<Rightarrow> None
                | Some (g3, g4, s3) \<Rightarrow>
                    (case expect 44 (skip_spaces s3) of
                       None \<Rightarrow> None
                     | Some s4 \<Rightarrow>
                         (case expect 123 (skip_spaces s4) of
                            None \<Rightarrow> None
                          | Some s5 \<Rightarrow> Some (take (length s - length s5) s, g3, g4))))))"

section \<open>RegExp.prototype.exec with the global flag\<close>

text \<open>
  The result of a successful \<open>exec\<close>: \<open>match.index\<close>, \<open>match[0]\<close>, \<open>match[3]\<close>
  and \<open>match[4]\<close> (the fields the program reads).
\<close>

record regexp_match =
  m_index :: nat
  m_text :: jsstring
  m_group3 :: "jsstring option"
  m_group4 :: "jsstring option"

text \<open>The match object for a match that starts at index \<open>i\<close>, if the pattern matches there.\<close>

definition match_at :: "jsstring \<Rightarrow> nat \<Rightarrow> regexp_match option" where
  "match_at text i =
     (case match_here (drop i text) of
        None \<Rightarrow> None
      | Some (m0, g3, g4) \<Rightarrow>
          Some \<lparr>m_index = i, m_text = m0, m_group3 = g3, m_group4 = g4\<rparr>)"

text \<open>
  The search of \<open>exec\<close>: the first position from \<open>i\<close> on, up to and including the
  end of the text, where the pattern matches.
\<close>

function find_match :: "jsstring \<Rightarrow> nat \<Rightarrow> regexp_match option" where
  "find_match text i =
     (if length text < i then None
      else (case match_at text i of
              Some m \<Rightarrow> Some m
            | None \<Rightarrow> find_match text (Suc i)))"
  by pat_completeness auto
termination
  by (relation "measure (\<lambda>(text, i). Suc (length text) - i)") auto

declare find_match.simps [simp del]

text \<open>
  \<open>pattern.exec(text)\<close> reads and writes \<open>pattern.lastIndex\<close>: the state of the
  RegExp object is passed in and returned. A failed search resets \<open>lastIndex\<close> to 0, a
  successful one sets it to the end of the match.
\<close>

definition exec :: "jsstring \<Rightarrow> nat \<Rightarrow> regexp_match option \<times> nat" where
  "exec text lastIndex =
     (case find_match text lastIndex of
        None \<Rightarrow> (None, 0)
      | Some m \<Rightarrow> (Some m, m_index m + length (m_text m)))"

section \<open>JavaScript values of the program\<close>

text \<open>
  \<open>a || b\<close> on values that are a string or \<open>undefined\<close>: \<open>undefined\<close> and the empty
  string are falsy.
\<close>

definition truthy_str :: "jsstring option \<Rightarrow> bool" where
  "truthy_str v = (case v of None \<Rightarrow> False | Some s \<Rightarrow> s \<noteq> [])"

definition or_str :: "jsstring option \<Rightarrow> jsstring option \<Rightarrow> jsstring option" where
  "or_str a b = (if truthy_str a then a else b)"

subsection \<open>Every match is a non-empty piece of the text\<close>

lemma match_callee_length:
  "match_callee s = Some r \<Longrightarrow> length r < length s"
  by (cases s) (auto simp: match_callee_def js_def split: if_splits)

lemma expect_length:
  "expect c s = Some r \<Longrightarrow> length s = Suc (length r)"
  by (auto simp: expect_def split: list.splits if_splits)

lemma skip_spaces_length:
  "length (skip_spaces s) \<le> length s"
  by (simp add: skip_spaces_def length_dropWhile_le)

lemma match_arg_length:
  assumes m: "match_arg s = Some (a, b, r)"
  shows "length r < length s"
proof (cases s)
  case Nil
  with m show ?thesis by (simp add: match_arg_def)
next
  case (Cons q t)
  show ?thesis
  proof (cases "q = 34 \<or> q = 39")
    case True
    with m Cons obtain r' where "expect q (dropWhile is_word t) = Some r'" and "r = r'"
      by (auto simp: match_arg_def Let_def split: if_splits option.splits)
    then have "length (dropWhile is_word t) = Suc (length r)"
      by (simp add: expect_length)
    moreover have "length (dropWhile is_word t) \<le> length t"
      by (rule length_dropWhile_le)
    ultimately show ?thesis using Cons by simp
  next
    case False
    with m Cons have w: "takeWhile is_word s \<noteq> []" and r: "r = dropWhile is_word s"
      by (auto simp: match_arg_def Let_def split: if_splits)
    have "length (takeWhile is_word s) + length (dropWhile is_word s) = length s"
      by (metis length_append takeWhile_dropWhile_id)
    moreover from w have "0 < length (takeWhile is_word s)" by simp
    ultimately have "length (dropWhile is_word s) < length s" by linarith
    with r show ?thesis by simp
  qed
qed

lemma match_here_length:
  assumes "match_here s = Some (m0, g3, g4)"
  shows "0 < length m0 \<and> length m0 \<le> length s \<and> m0 = take (length m0) s"
proof -
  from assms obtain s1 s2 s3 s4 s5 where
    c: "match_callee s = Some s1" and
    p: "expect 40 (skip_spaces s1) = Some s2" and
    a: "match_arg (skip_spaces s2) = Some (g3, g4, s3)" and
    k: "expect 44 (skip_spaces s3) = Some s4" and
    b: "expect 123 (skip_spaces s4) = Some s5" and
    m: "m0 = take (length s - length s5) s"
    by (auto simp: match_here_def split: option.splits)
  have "length s5 < length s"
    using match_callee_length [OF c] expect_length [OF p] match_arg_length [OF a]
      expect_length [OF k] expect_length [OF b]
      skip_spaces_length [of s1] skip_spaces_length [of s2]
      skip_spaces_length [of s3] skip_spaces_length [of s4]
    by linarith
  with m show ?thesis by simp
qed

lemma match_at_Some:
  "match_at text i = Some m \<longleftrightarrow>
     m_index m = i \<and> match_here (drop i text) = Some (m_text m, m_group3 m, m_group4 m)"
  by (cases m) (auto simp: match_at_def split: option.splits)

lemma match_at_None:
  "match_at text i = None \<longleftrightarrow> match_here (drop i text) = None"
  by (auto simp: match_at_def split: option.splits)

lemma find_match_Some:
  "find_match text i = Some m \<Longrightarrow>
     i \<le> m_index m \<and> m_index m \<le> length text \<and> match_at text (m_index m) = Some m"
proof (induction "text" i rule: find_match.induct)
  case (1 t i)
  show ?case
  proof (cases "length t < i")
    case True
    with "1.prems" show ?thesis by (simp add: find_match.simps)
  next
    case False
    show ?thesis
    proof (cases "match_at t i")
      case None
      with False "1.prems" have "find_match t (Suc i) = Some m"
        by (simp add: find_match.simps [of t i])
      with "1.IH" [OF False None] show ?thesis by simp
    next
      case (Some r)
      with False "1.prems" have "r = m"
        by (simp add: find_match.simps [of t i])
      with Some False show ?thesis by (simp add: match_at_Some)
    qed
  qed
qed

lemma exec_Some:
  assumes "exec text lastIndex = (Some m, lastIndex')"
  shows "lastIndex < lastIndex' \<and> lastIndex' \<le> length text \<and>
         lastIndex \<le> m_index m \<and> lastIndex' = m_index m + length (m_text m)"
proof -
  from assms have f: "find_match text lastIndex = Some m"
    and l: "lastIndex' = m_index m + length (m_text m)"
    by (auto simp: exec_def split: option.splits)
  note fm = find_match_Some [OF f]
  from fm have h: "match_here (drop (m_index m) text) = Some (m_text m, m_group3 m, m_group4 m)"
    by (simp add: match_at_Some)
  from match_here_length [OF h] have p: "0 < length (m_text m)"
    and q: "length (m_text m) \<le> length (drop (m_index m) text)"
    by simp_all
  from fm have i: "lastIndex \<le> m_index m" and j: "m_index m \<le> length text"
    by simp_all
  from q j have "m_index m + length (m_text m) \<le> length text" by simp
  with p i l show ?thesis by linarith
qed

section \<open>The call-site resolver\<close>

text \<open>
  The \<open>while\<close> loop of \<open>getEnclosingClassName\<close>: its state is \<open>pattern.lastIndex\<close>
  and \<open>lastClassName\<close>. \<open>className\<close> is \<open>fromString || fromIdent\<close>, and
  \<open>lastClassName\<close> is overwritten when it is truthy.
\<close>

function getEnclosingClassName_loop :: "jsstring \<Rightarrow> nat \<Rightarrow> jsstring option \<Rightarrow> jsstring option" where
  "getEnclosingClassName_loop text lastIndex lastClassName =
     (case exec text lastIndex of
        (None, _) \<Rightarrow> lastClassName
      | (Some m, lastIndex') \<Rightarrow>
          (let className = or_str (m_group3 m) (m_group4 m) in
           getEnclosingClassName_loop text lastIndex'
             (if truthy_str className then className else lastClassName)))"
  by pat_completeness auto
termination
  by (relation "measure (\<lambda>(text, lastIndex, lastClassName). length text - lastIndex)")
    (auto dest!: exec_Some [OF sym])

declare getEnclosingClassName_loop.simps [simp del]

text \<open>The regular expression literal is evaluated at each call: a new object, \<open>lastIndex = 0\<close>.\<close>

definition getEnclosingClassName :: "jsstring \<Rightarrow> jsstring option" where
  "getEnclosingClassName text = getEnclosingClassName_loop text 0 None"

section \<open>The containment checker\<close>

text \<open>
  \<open>s.lastIndexOf(c)\<close> for a one-unit search string: the greatest index of \<open>c\<close> in
  \<open>s\<close>, or \<open>-1\<close>.
\<close>

fun lastIndexOf :: "jsstring \<Rightarrow> nat \<Rightarrow> int" where
  "lastIndexOf [] c = -1"
| "lastIndexOf (d # r) c =
     (let k = lastIndexOf r c in
      if 0 \<le> k then k + 1 else if d = c then 0 else -1)"

text \<open>
  The first \<open>while\<close> loop of \<open>isInsidePropsObject\<close>: its state is
  \<open>pattern.lastIndex\<close> and \<open>propsStartIndex\<close>. A match for another class is skipped
  by \<open>continue\<close>.
\<close>

function propsStartIndex_loop :: "jsstring \<Rightarrow> jsstring \<Rightarrow> nat \<Rightarrow> int \<Rightarrow> int" where
  "propsStartIndex_loop text className lastIndex propsStartIndex =
     (case exec text lastIndex of
        (None, _) \<Rightarrow> propsStartIndex
      | (Some m, lastIndex') \<Rightarrow>
          (let matchedClassName = or_str (m_group3 m) (m_group4 m) in
           if matchedClassName \<noteq> Some className
           then propsStartIndex_loop text className lastIndex' propsStartIndex
           else
             (let braceIndexInMatch = lastIndexOf (m_text m) 123 in
              propsStartIndex_loop text className lastIndex'
                (int (m_index m) + braceIndexInMatch))))"
  by pat_completeness auto
termination
  by (relation "measure (\<lambda>(text, className, lastIndex, propsStartIndex). length text - lastIndex)")
    (auto dest!: exec_Some [OF sym])

declare propsStartIndex_loop.simps [simp del]

text \<open>
  The \<open>for\<close> loop: \<open>i\<close> runs from \<open>propsStartIndex\<close> to the end of the text, with
  \<open>depth\<close>. The result is \<open>ended\<close>: \<open>True\<close> is the \<open>break\<close>, \<open>False\<close> the end
  of the text.
\<close>

function brace_loop :: "jsstring \<Rightarrow> nat \<Rightarrow> nat \<Rightarrow> int \<Rightarrow> bool" where
  "brace_loop text propsStartIndex i depth =
     (if i < length text then
        (let ch = text ! i in
         if ch = 123 then brace_loop text propsStartIndex (Suc i) (depth + 1)
         else if ch = 125 then
           (if depth - 1 = 0 \<and> propsStartIndex < i then True
            else brace_loop text propsStartIndex (Suc i) (depth - 1))
         else brace_loop text propsStartIndex (Suc i) depth)
      else False)"
  by pat_completeness auto
termination
  by (relation "measure (\<lambda>(text, propsStartIndex, i, depth). length text - i)") auto

declare brace_loop.simps [simp del]

definition isInsidePropsObject :: "jsstring \<Rightarrow> jsstring \<Rightarrow> bool" where
  "isInsidePropsObject text className =
     (let propsStartIndex = propsStartIndex_loop text className 0 (-1) in
      if propsStartIndex = -1 then False
      else
        (let ended = brace_loop text (nat propsStartIndex) (nat propsStartIndex) 0 in
         \<not> ended))"

section \<open>The property resolver\<close>

text \<open>
  A value of type \<open>Record<string, string[]>\<close> is an object; its own properties are
  modelled as a map from class names to property-name lists.
\<close>

type_synonym props_record = "jsstring \<rightharpoonup> jsstring list"

definition defaultPropsMap :: props_record where
  "defaultPropsMap = map_of
     [(js ''TextLabel'',
         map js [''Text'', ''TextColor3'', ''TextTransparency'', ''TextStrokeColor3'',
           ''TextStrokeTransparency'', ''Font'', ''TextSize'', ''RichText'', ''TextWrapped'',
           ''TextXAlignment'', ''TextYAlignment'', ''BackgroundColor3'',
           ''BackgroundTransparency'', ''BorderSizePixel'', ''BorderColor3'', ''Size'',
           ''Position'', ''AnchorPoint'', ''Visible'', ''ZIndex'', ''LayoutOrder'']),
      (js ''Frame'',
         map js [''BackgroundColor3'', ''BackgroundTransparency'', ''BorderSizePixel'',
           ''BorderColor3'', ''Size'', ''Position'', ''AnchorPoint'', ''Visible'', ''ZIndex'',
           ''LayoutOrder'', ''AutomaticSize'']),
      (js ''ImageLabel'',
         map js [''Image'', ''ImageColor3'', ''ImageTransparency'', ''ScaleType'',
           ''SliceCenter'', ''BackgroundColor3'', ''BackgroundTransparency'',
           ''BorderSizePixel'', ''BorderColor3'', ''Size'', ''Position'', ''AnchorPoint'',
           ''Visible'', ''ZIndex'', ''LayoutOrder''])]"

text \<open>
  What \<open>obj[key]\<close> can evaluate to in this program. The declared type promises a string
  array or \<open>undefined\<close>, but the types are erased when the program runs, and \<open>obj[key]\<close>
  is an ordinary property read: when \<open>obj\<close> has no own property \<open>key\<close>, the read goes on
  to the prototype of \<open>obj\<close>. \<open>defaultPropsMap\<close> is an object literal and the
  configuration value is an object read from JSON settings, so the prototype is
  \<open>Object.prototype\<close>, whose properties are functions (with their \<open>length\<close>), and
  \<open>__proto__\<close>, which reads as \<open>Object.prototype\<close> itself (an object with neither
  \<open>length\<close> nor \<open>map\<close>).
\<close>

datatype jsvalue =
    JSUndefined
  | JSArray "jsstring list"
  | JSFunction nat
  | JSObject

text \<open>
  The properties of \<open>Object.prototype\<close> (ECMAScript, with Annex B). Every one of these
  names is made of code units of \<open>[A-Za-z0-9_]\<close>, so each can be a captured class name.
\<close>

definition object_prototype :: "jsstring \<Rightarrow> jsvalue" where
  "object_prototype key =
     (if key = js ''constructor'' then JSFunction 1
      else if key = js ''hasOwnProperty'' then JSFunction 1
      else if key = js ''isPrototypeOf'' then JSFunction 1
      else if key = js ''propertyIsEnumerable'' then JSFunction 1
      else if key = js ''toLocaleString'' then JSFunction 0
      else if key = js ''toString'' then JSFunction 0
      else if key = js ''valueOf'' then JSFunction 0
      else if key = js ''__defineGetter__'' then JSFunction 2
      else if key = js ''__defineSetter__'' then JSFunction 2
      else if key = js ''__lookupGetter__'' then JSFunction 1
      else if key = js ''__lookupSetter__'' then JSFunction 1
      else if key = js ''__proto__'' then JSObject
      else JSUndefined)"

text \<open>The property read \<open>obj[key]\<close>: an own property first, then the prototype.\<close>

definition get_property :: "props_record \<Rightarrow> jsstring \<Rightarrow> jsvalue" where
  "get_property obj key =
     (case obj key of
        Some props \<Rightarrow> JSArray props
      | None \<Rightarrow> object_prototype key)"

text \<open>
  \<open>a || b\<close> on these values: only \<open>undefined\<close> is falsy. An array is an object, and
  every object is truthy, the empty array too.
\<close>

definition truthy :: "jsvalue \<Rightarrow> bool" where
  "truthy v = (v \<noteq> JSUndefined)"

definition or_value :: "jsvalue \<Rightarrow> jsvalue \<Rightarrow> jsvalue" where
  "or_value a b = (if truthy a then a else b)"

text \<open>
  \<open>getPropsForClass\<close>. The configuration of the editor is an input of the query: \<open>config\<close>
  is the value of the setting \<open>reactLuauPropsHelper.props\<close>, \<open>None\<close> when there is none.
  \<open>config.get("props", defaultPropsMap) || defaultPropsMap\<close> is then the built-in map.
\<close>

definition getPropsForClass :: "props_record option \<Rightarrow> jsstring \<Rightarrow> jsvalue" where
  "getPropsForClass config className =
     (let userMap = (case config of None \<Rightarrow> defaultPropsMap | Some m \<Rightarrow> m) in
      or_value (get_property userMap className) (get_property defaultPropsMap className))"

section \<open>The completion builder\<close>

datatype completion_item_kind = Property

record completion_item =
  label :: jsstring
  kind :: completion_item_kind
  insertText :: jsstring
  detail :: jsstring

text \<open>
  \<open>insertText\<close> is the source of the snippet, \<open>`${name} = $0`\<close>; \<open>$0\<close> is the
  snippet syntax for the final cursor position.
\<close>

definition buildItemsForProps :: "jsstring \<Rightarrow> jsstring list \<Rightarrow> completion_item list" where
  "buildItemsForProps className props =
     map (\<lambda>name.
            \<lparr>label = name,
             kind = Property,
             insertText = name @ js '' = $0'',
             detail = className @ js '' property (React Luau helper)''\<rparr>)
         props"

section \<open>The query\<close>

text \<open>
  \<open>document.getText(new Range(new Position(0, 0), position))\<close> belongs to the editor. The
  cursor is given as an offset into the document text, and the editor adjusts a position
  outside the document to the document: the text from the start to the cursor is the
  prefix of that length, the whole text when the offset is beyond the end.
\<close>

definition getText :: "jsstring \<Rightarrow> nat \<Rightarrow> jsstring" where
  "getText document position = take position document"

definition maxLookback :: nat where
  "maxLookback = 2000"

text \<open>The window: \<open>textBeforeCursor\<close> after the \<open>if\<close> that limits its size.\<close>

definition window :: "jsstring \<Rightarrow> nat \<Rightarrow> jsstring" where
  "window document position =
     (let textBeforeCursor = getText document position in
      if maxLookback < length textBeforeCursor
      then drop (length textBeforeCursor - maxLookback) textBeforeCursor
      else textBeforeCursor)"

text \<open>
  \<open>props.length\<close>: the length of an array, the number of parameters of a function,
  \<open>undefined\<close> (\<open>None\<close>) for the object without that property.
\<close>

definition length_of :: "jsvalue \<Rightarrow> nat option" where
  "length_of v =
     (case v of
        JSArray xs \<Rightarrow> Some (length xs)
      | JSFunction n \<Rightarrow> Some n
      | _ \<Rightarrow> None)"

text \<open>
  A query returns a list of items, or \<open>undefined\<close> (\<open>Inr None\<close>), or it throws.
  \<open>props.map(...)\<close> throws a \<open>TypeError\<close> when \<open>props\<close> is not an array: then
  \<open>props.map\<close> is \<open>undefined\<close>, and calling it is the error.
\<close>

datatype error = TypeError

text \<open>The steps of \<open>provideCompletionItems\<close> after the window, on \<open>textBeforeCursor\<close>.\<close>

definition complete_in :: "props_record option \<Rightarrow> jsstring \<Rightarrow> error + completion_item list option" where
  "complete_in config textBeforeCursor =
     (let className = getEnclosingClassName textBeforeCursor in
      if \<not> truthy_str className then Inr None
      else
        (case className of
           None \<Rightarrow> Inr None
         | Some cn \<Rightarrow>
             (let props = getPropsForClass config cn in
              if \<not> truthy props \<or> length_of props = Some 0 then Inr None
              else if \<not> isInsidePropsObject textBeforeCursor cn then Inr None
              else
                (case props of
                   JSArray names \<Rightarrow> Inr (Some (buildItemsForProps cn names))
                 | _ \<Rightarrow> Inl TypeError))))"

definition provideCompletionItems ::
  "props_record option \<Rightarrow> jsstring \<Rightarrow> nat \<Rightarrow> error + completion_item list option" where
  "provideCompletionItems config document position =
     complete_in config (window document position)"

section \<open>The query with the state it leaves behind\<close>

text \<open>
  What is alive between two queries: the object bound to the module constant
  \<open>defaultPropsMap\<close>, and the RegExp objects. The provider object has no fields.
  \<open>const pattern = /.../g\<close> evaluates a regular expression literal, and each
  evaluation of a literal creates a new RegExp object whose \<open>lastIndex\<close> is 0;
  \<open>pattern.exec(text)\<close> reads and writes the \<open>lastIndex\<close> of that object. The store
  keeps every RegExp object ever created (its \<open>lastIndex\<close>, by address; nothing is
  collected) and the built-in map, and each function below takes the store and returns
  it: this is the program with its state written out, against which the functions above,
  which keep no state, are compared in the section on determinism.
\<close>

record store =
  regexp_lastIndex :: "nat \<Rightarrow> nat"
  regexp_count :: nat
  builtin_map :: props_record

text \<open>The store when the module has been loaded and no query has run.\<close>

definition initial_store :: store where
  "initial_store =
     \<lparr>regexp_lastIndex = (\<lambda>_. 0), regexp_count = 0, builtin_map = defaultPropsMap\<rparr>"

text \<open>The evaluation of the literal: a new object at a fresh address.\<close>

definition new_RegExp :: "store \<Rightarrow> nat \<times> store" where
  "new_RegExp st =
     (regexp_count st,
      st\<lparr>regexp_lastIndex := (regexp_lastIndex st)(regexp_count st := 0),
         regexp_count := Suc (regexp_count st)\<rparr>)"

text \<open>\<open>pattern.exec(text)\<close> on the object at the address \<open>pattern\<close>.\<close>

definition exec_st :: "nat \<Rightarrow> jsstring \<Rightarrow> store \<Rightarrow> regexp_match option \<times> store" where
  "exec_st pattern text st =
     (case exec text (regexp_lastIndex st pattern) of
        (result, lastIndex') \<Rightarrow>
          (result, st\<lparr>regexp_lastIndex := (regexp_lastIndex st)(pattern := lastIndex')\<rparr>))"

lemma exec_st_Some:
  assumes "exec_st pattern text st = (Some m, st')"
  shows "length text - regexp_lastIndex st' pattern < length text - regexp_lastIndex st pattern"
proof -
  from assms obtain l' where e: "exec text (regexp_lastIndex st pattern) = (Some m, l')"
    and s: "st' = st\<lparr>regexp_lastIndex := (regexp_lastIndex st)(pattern := l')\<rparr>"
    by (auto simp: exec_st_def split: prod.splits)
  from exec_Some [OF e] have "regexp_lastIndex st pattern < l'" and "l' \<le> length text"
    by simp_all
  then have "length text - l' < length text - regexp_lastIndex st pattern" by linarith
  with s show ?thesis by simp
qed

text \<open>The two scans and the two methods, as above, on the store.\<close>

function getEnclosingClassName_loop_st ::
  "nat \<Rightarrow> jsstring \<Rightarrow> jsstring option \<Rightarrow> store \<Rightarrow> jsstring option \<times> store" where
  "getEnclosingClassName_loop_st pattern text lastClassName st =
     (case exec_st pattern text st of
        (None, st') \<Rightarrow> (lastClassName, st')
      | (Some m, st') \<Rightarrow>
          (let className = or_str (m_group3 m) (m_group4 m) in
           getEnclosingClassName_loop_st pattern text
             (if truthy_str className then className else lastClassName) st'))"
  by pat_completeness auto
termination
  by (relation "measure (\<lambda>(pattern, text, lastClassName, st).
        length text - regexp_lastIndex st pattern)")
    (auto dest!: exec_st_Some [OF sym])

declare getEnclosingClassName_loop_st.simps [simp del]

definition getEnclosingClassName_st :: "jsstring \<Rightarrow> store \<Rightarrow> jsstring option \<times> store" where
  "getEnclosingClassName_st text st =
     (case new_RegExp st of
        (pattern, st1) \<Rightarrow> getEnclosingClassName_loop_st pattern text None st1)"

function propsStartIndex_loop_st ::
  "nat \<Rightarrow> jsstring \<Rightarrow> jsstring \<Rightarrow> int \<Rightarrow> store \<Rightarrow> int \<times> store" where
  "propsStartIndex_loop_st pattern text className propsStartIndex st =
     (case exec_st pattern text st of
        (None, st') \<Rightarrow> (propsStartIndex, st')
      | (Some m, st') \<Rightarrow>
          (let matchedClassName = or_str (m_group3 m) (m_group4 m) in
           if matchedClassName \<noteq> Some className
           then propsStartIndex_loop_st pattern text className propsStartIndex st'
           else
             (let braceIndexInMatch = lastIndexOf (m_text m) 123 in
              propsStartIndex_loop_st pattern text className
                (int (m_index m) + braceIndexInMatch) st')))"
  by pat_completeness auto
termination
  by (relation "measure (\<lambda>(pattern, text, className, propsStartIndex, st).
        length text - regexp_lastIndex st pattern)")
    (auto dest!: exec_st_Some [OF sym])

declare propsStartIndex_loop_st.simps [simp del]

definition isInsidePropsObject_st :: "jsstring \<Rightarrow> jsstring \<Rightarrow> store \<Rightarrow> bool \<times> store" where
  "isInsidePropsObject_st text className st =
     (case new_RegExp st of
        (pattern, st1) \<Rightarrow>
          (case propsStartIndex_loop_st pattern text className (-1) st1 of
             (propsStartIndex, st2) \<Rightarrow>
               if propsStartIndex = -1 then (False, st2)
               else
                 (let ended = brace_loop text (nat propsStartIndex) (nat propsStartIndex) 0 in
                  (\<not> ended, st2))))"

text \<open>\<open>getPropsForClass\<close> reads the built-in map of the store.\<close>

definition getPropsForClass_st :: "props_record option \<Rightarrow> jsstring \<Rightarrow> store \<Rightarrow> jsvalue" where
  "getPropsForClass_st config className st =
     (let userMap = (case config of None \<Rightarrow> builtin_map st | Some m \<Rightarrow> m) in
      or_value (get_property userMap className) (get_property (builtin_map st) className))"

definition complete_in_st ::
  "props_record option \<Rightarrow> jsstring \<Rightarrow> store
     \<Rightarrow> (error + completion_item list option) \<times> store" where
  "complete_in_st config textBeforeCursor st =
     (case getEnclosingClassName_st textBeforeCursor st of
        (className, st1) \<Rightarrow>
          if \<not> truthy_str className then (Inr None, st1)
          else
            (case className of
               None \<Rightarrow> (Inr None, st1)
             | Some cn \<Rightarrow>
                 (let props = getPropsForClass_st config cn st1 in
                  if \<not> truthy props \<or> length_of props = Some 0 then (Inr None, st1)
                  else
                    (case isInsidePropsObject_st textBeforeCursor cn st1 of
                       (inside, st2) \<Rightarrow>
                         if \<not> inside then (Inr None, st2)
                         else
                           (case props of
                              JSArray names \<Rightarrow> (Inr (Some (buildItemsForProps cn names)), st2)
                            | _ \<Rightarrow> (Inl TypeError, st2))))))"

definition provideCompletionItems_st ::
  "props_record option \<Rightarrow> jsstring \<Rightarrow> nat \<Rightarrow> store
     \<Rightarrow> (error + completion_item list option) \<times> store" where
  "provideCompletionItems_st config document position st =
     complete_in_st config (window document position) st"

text \<open>A run of queries, one after the other: the store that the last one leaves.\<close>

type_synonym query = "props_record option \<times> jsstring \<times> nat"

fun run_queries :: "query list \<Rightarrow> store \<Rightarrow> store" where
  "run_queries [] st = st"
| "run_queries ((config, document, position) # qs) st =
     run_queries qs (snd (provideCompletionItems_st config document position st))"

section \<open>Evaluation on concrete inputs\<close>

lemmas match_eval = match_here_def match_callee_def skip_spaces_def expect_def match_arg_def
  is_space_def is_word_def js_def

lemmas scan_eval = exec_def find_match.simps match_at_def or_str_def truthy_str_def

lemmas resolver_eval = getEnclosingClassName_def getEnclosingClassName_loop.simps

lemmas containment_eval = isInsidePropsObject_def propsStartIndex_loop.simps brace_loop.simps

lemmas props_eval = getPropsForClass_def get_property_def object_prototype_def truthy_def
  or_value_def defaultPropsMap_def

lemmas query_eval = provideCompletionItems_def complete_in_def window_def getText_def
  maxLookback_def length_of_def

section \<open>The shape of a match\<close>

text \<open>
  Two facts about the pattern carry the claims about the scans: a match is one of the two
  call spellings followed by a body that ends with its only \<open>{\<close>, and no match starts
  inside another match. \<open>starts_call\<close> are the first two pieces of the pattern (the
  spelling, spaces, the parenthesis); \<open>clean p k\<close> says that no call starts inside the
  piece \<open>p\<close> when \<open>k\<close> follows it.
\<close>

definition starts_call :: "jsstring \<Rightarrow> bool" where
  "starts_call s =
     (case match_callee s of
        None \<Rightarrow> False
      | Some s1 \<Rightarrow> expect 40 (skip_spaces s1) \<noteq> None)"

definition after_word :: "jsstring \<Rightarrow> jsstring" where
  "after_word s = skip_spaces (dropWhile is_word s)"

lemma match_here_starts_call:
  "match_here s = Some r \<Longrightarrow> starts_call s"
  by (auto simp: match_here_def starts_call_def split: option.splits)

lemma space_not_word: "is_space c \<Longrightarrow> \<not> is_word c"
  by (auto simp: is_space_def is_word_def split: if_splits)

lemma expect_Some: "expect c s = Some r \<longleftrightarrow> s = c # r"
  by (auto simp: expect_def split: list.splits)

lemma skip_spaces_Cons:
  "skip_spaces s = c # r \<Longrightarrow> \<not> is_space c \<and> s = takeWhile is_space s @ c # r"
  by (simp add: skip_spaces_def dropWhile_eq_Cons_conv)

lemma callee_React:
  "take 19 s = js ''React.createElement'' \<Longrightarrow> s = js ''React.createElement'' @ drop 19 s"
  by (metis append_take_drop_id)

lemma starts_call_shape:
  assumes "starts_call y"
  shows "(\<exists>r. y = 82 # r \<or> y = 101 # r) \<and> (\<exists>r. after_word y = 40 # r \<or> after_word y = 46 # r)"
proof (cases "take 19 y = js ''React.createElement''")
  case True
  from callee_React [OF True] obtain r where y: "y = js ''React.createElement'' @ r" ..
  show ?thesis
    by (subst (1 2 3 4) y) (simp add: after_word_def js_def is_word_def is_space_def skip_spaces_def)
next
  case False
  with assms have e: "take 1 y = js ''e''" and p: "expect 40 (skip_spaces (drop 1 y)) \<noteq> None"
    by (auto simp: starts_call_def match_callee_def split: if_splits)
  from e obtain r where y: "y = 101 # r"
    by (cases y) (auto simp: js_def)
  from p y obtain s2 where s: "skip_spaces r = 40 # s2"
    by (auto simp: expect_Some)
  from skip_spaces_Cons [OF s] have r: "r = takeWhile is_space r @ 40 # s2" by simp
  have "dropWhile is_word r = r"
  proof (cases r)
    case Nil
    then show ?thesis by simp
  next
    case (Cons c t)
    have "\<not> is_word c"
    proof (cases "is_space c")
      case True
      then show ?thesis by (rule space_not_word)
    next
      case False
      with Cons r have "c = 40" by (simp add: takeWhile.simps)
      then show ?thesis by (simp add: is_word_def)
    qed
    with Cons show ?thesis by simp
  qed
  then have "after_word y = 40 # s2"
    using y s by (simp add: after_word_def is_word_def)
  with y show ?thesis by simp
qed

definition clean :: "jsstring \<Rightarrow> jsstring \<Rightarrow> bool" where
  "clean p k = (\<forall>u v. p = u @ v \<and> v \<noteq> [] \<longrightarrow> \<not> starts_call (v @ k))"

lemma clean_append:
  assumes "clean p (q @ k)" and "clean q k"
  shows "clean (p @ q) k"
  unfolding clean_def
proof (intro allI impI)
  fix u v
  assume h: "p @ q = u @ v \<and> v \<noteq> []"
  then consider w where "p = u @ w" "v = w @ q" "w \<noteq> []" | w where "q = w @ v"
    by (auto simp: append_eq_append_conv2) (metis append_Nil)
  then show "\<not> starts_call (v @ k)"
  proof cases
    case 1
    with assms(1) show ?thesis by (auto simp: clean_def)
  next
    case 2
    with assms(2) h show ?thesis by (auto simp: clean_def)
  qed
qed

lemma clean_plain:
  assumes "\<forall>c\<in>set p. c \<noteq> 82 \<and> c \<noteq> 101"
  shows "clean p k"
  unfolding clean_def
proof (intro allI impI notI)
  fix u v
  assume h: "p = u @ v \<and> v \<noteq> []" and s: "starts_call (v @ k)"
  from h obtain c t where v: "v = c # t" by (cases v) auto
  with h assms have "c \<noteq> 82 \<and> c \<noteq> 101" by auto
  with starts_call_shape [OF s] v show False by auto
qed

lemma clean_word:
  assumes w: "\<forall>c\<in>set w. is_word c"
    and k: "k = [] \<or> \<not> is_word (hd k)"
    and a: "\<forall>r. skip_spaces k \<noteq> 40 # r \<and> skip_spaces k \<noteq> 46 # r"
  shows "clean w k"
  unfolding clean_def
proof (intro allI impI notI)
  fix u v
  assume h: "w = u @ v \<and> v \<noteq> []" and s: "starts_call (v @ k)"
  from h w have "\<forall>c\<in>set v. is_word c" by auto
  then have "dropWhile is_word (v @ k) = dropWhile is_word k"
    by (simp add: dropWhile_append)
  also from k have "\<dots> = k" by (cases k) auto
  finally have "after_word (v @ k) = skip_spaces k" by (simp add: after_word_def)
  with starts_call_shape [OF s] a show False by auto
qed

lemma clean_Nil: "clean [] k"
  by (simp add: clean_def)

lemma clean_Cons:
  assumes "c \<noteq> 82" and "c \<noteq> 101" and "clean p k"
  shows "clean (c # p) k"
proof -
  from assms(1,2) have "clean [c] (p @ k)" by (intro clean_plain) simp
  from clean_append [OF this assms(3)] show ?thesis by simp
qed

lemma clean_spaces:
  assumes "\<forall>c\<in>set sp. is_space c" and "clean p k"
  shows "clean (sp @ p) k"
proof -
  from assms(1) have "\<forall>c\<in>set sp. c \<noteq> 82 \<and> c \<noteq> 101"
    by (auto simp: is_space_def split: if_splits)
  then have "clean sp (p @ k)" by (rule clean_plain)
  from clean_append [OF this assms(2)] show ?thesis .
qed

lemma skip_spaces_decomp:
  "\<exists>sp. s = sp @ skip_spaces s \<and> (\<forall>c\<in>set sp. is_space c)"
proof (intro exI conjI)
  show "s = takeWhile is_space s @ skip_spaces s" by (simp add: skip_spaces_def)
  show "\<forall>c\<in>set (takeWhile is_space s). is_space c" by (auto dest: set_takeWhileD)
qed

lemma match_arg_decomp:
  assumes "match_arg s = Some (g3, g4, r)"
  shows "\<exists>arg w. s = arg @ r \<and> w \<noteq> [] \<and> (\<forall>c\<in>set w. is_word c) \<and>
           ((\<exists>q. (q = 34 \<or> q = 39) \<and> arg = q # w @ [q] \<and> g3 = Some w \<and> g4 = None) \<or>
            (arg = w \<and> g3 = None \<and> g4 = Some w \<and> (r = [] \<or> \<not> is_word (hd r))))"
proof (cases s)
  case Nil
  with assms show ?thesis by (simp add: match_arg_def)
next
  case (Cons q t)
  show ?thesis
  proof (cases "q = 34 \<or> q = 39")
    case True
    let ?w = "takeWhile is_word t"
    from assms Cons True have w: "?w \<noteq> []" and e: "expect q (dropWhile is_word t) = Some r"
      and g: "g3 = Some ?w" "g4 = None"
      by (auto simp: match_arg_def Let_def split: if_splits option.splits)
    from e have "dropWhile is_word t = q # r" by (simp add: expect_Some)
    then have "t = ?w @ q # r" by (metis takeWhile_dropWhile_id)
    with Cons have "s = (q # ?w @ [q]) @ r" by simp
    moreover have "\<forall>c\<in>set ?w. is_word c" by (auto dest: set_takeWhileD)
    ultimately show ?thesis using w g True by blast
  next
    case False
    let ?w = "takeWhile is_word s"
    from assms Cons False have w: "?w \<noteq> []" and r: "r = dropWhile is_word s"
      and g: "g3 = None" "g4 = Some ?w"
      by (auto simp: match_arg_def Let_def split: if_splits)
    have "s = ?w @ r" using r by simp
    moreover have "\<forall>c\<in>set ?w. is_word c" by (auto dest: set_takeWhileD)
    moreover have "r = [] \<or> \<not> is_word (hd r)"
      unfolding r by (metis hd_dropWhile)
    ultimately show ?thesis using w g by blast
  qed
qed

lemma match_callee_decomp:
  assumes "match_callee s = Some s1"
  shows "\<exists>tok. s = tok @ s1 \<and> (tok = js ''React.createElement'' \<or> tok = js ''e'')"
proof (cases "take 19 s = js ''React.createElement''")
  case True
  with assms have "s1 = drop 19 s" by (simp add: match_callee_def)
  with callee_React [OF True] show ?thesis by auto
next
  case False
  with assms have e: "take 1 s = js ''e''" and "s1 = drop 1 s"
    by (auto simp: match_callee_def split: if_splits)
  then have "s = js ''e'' @ s1" by (metis append_take_drop_id)
  then show ?thesis by auto
qed

lemma match_here_decomp:
  assumes "match_here s = Some (m0, g3, g4)"
  shows "\<exists>tok body s5. s = tok @ body @ s5 \<and> m0 = tok @ body \<and>
           (tok = js ''React.createElement'' \<or> tok = js ''e'') \<and>
           clean body s5 \<and> (\<exists>b. body = b @ [123]) \<and>
           (\<exists>w. w \<noteq> [] \<and> ((g3 = Some w \<and> g4 = None) \<or> (g3 = None \<and> g4 = Some w)))"
proof -
  from assms obtain s1 s2 s3 s4 s5 where
    c: "match_callee s = Some s1" and
    p: "expect 40 (skip_spaces s1) = Some s2" and
    a: "match_arg (skip_spaces s2) = Some (g3, g4, s3)" and
    k: "expect 44 (skip_spaces s3) = Some s4" and
    b: "expect 123 (skip_spaces s4) = Some s5" and
    m: "m0 = take (length s - length s5) s"
    by (auto simp: match_here_def split: option.splits)
  from match_callee_decomp [OF c] obtain tok where
    tok: "s = tok @ s1" "tok = js ''React.createElement'' \<or> tok = js ''e''" by blast
  from skip_spaces_decomp [of s1] p obtain sp1 where
    sp1: "s1 = sp1 @ 40 # s2" "\<forall>c\<in>set sp1. is_space c" by (auto simp: expect_Some)
  from skip_spaces_decomp [of s2] obtain sp2 where
    sp2: "s2 = sp2 @ skip_spaces s2" "\<forall>c\<in>set sp2. is_space c" by blast
  from match_arg_decomp [OF a] obtain arg w where
    arg: "skip_spaces s2 = arg @ s3" "w \<noteq> []" "\<forall>c\<in>set w. is_word c"
      "(\<exists>q. (q = 34 \<or> q = 39) \<and> arg = q # w @ [q] \<and> g3 = Some w \<and> g4 = None) \<or>
       (arg = w \<and> g3 = None \<and> g4 = Some w \<and> (s3 = [] \<or> \<not> is_word (hd s3)))"
    by blast
  from skip_spaces_decomp [of s3] k obtain sp3 where
    sp3: "s3 = sp3 @ 44 # s4" "\<forall>c\<in>set sp3. is_space c" by (auto simp: expect_Some)
  from skip_spaces_decomp [of s4] b obtain sp4 where
    sp4: "s4 = sp4 @ 123 # s5" "\<forall>c\<in>set sp4. is_space c" by (auto simp: expect_Some)
  let ?b3 = "sp3 @ 44 # sp4 @ [123]"
  let ?body = "sp1 @ 40 # sp2 @ arg @ ?b3"
  have s3: "s3 = ?b3 @ s5" using sp3 sp4 by simp
  have s1: "s1 = ?body @ s5" using sp1 sp2 arg(1) s3 by simp
  have c3: "clean ?b3 s5"
    by (intro clean_spaces clean_Cons clean_Nil sp3 sp4) simp_all
  have ca: "clean arg s3"
  proof (cases "g4 = None")
    case True
    with arg(4) obtain q where q: "q = 34 \<or> q = 39" and ar: "arg = q # w @ [q]"
      by auto
    have nq: "\<not> is_word q" "\<not> is_space q" "q \<noteq> 82" "q \<noteq> 101" "q \<noteq> 40" "q \<noteq> 46"
      using q by (auto simp: is_word_def is_space_def)
    have "clean w ([q] @ s3)"
      using nq by (intro clean_word arg(3)) (simp_all add: skip_spaces_def)
    moreover have "clean [q] s3" using nq by (intro clean_Cons clean_Nil)
    ultimately have "clean (w @ [q]) s3" by (rule clean_append)
    with nq have "clean (q # w @ [q]) s3" by (intro clean_Cons)
    with ar show ?thesis by simp
  next
    case False
    with arg(4) have ar: "arg = w" and h: "s3 = [] \<or> \<not> is_word (hd s3)"
      by auto
    from k have "skip_spaces s3 = 44 # s4" by (simp add: expect_Some)
    then have "\<forall>r. skip_spaces s3 \<noteq> 40 # r \<and> skip_spaces s3 \<noteq> 46 # r" by simp
    with h arg(3) have "clean w s3" by (intro clean_word)
    with ar show ?thesis by simp
  qed
  from ca c3 have "clean (arg @ ?b3) s5" unfolding s3 by (rule clean_append)
  from clean_spaces [OF sp2(2) this] have "clean (sp2 @ arg @ ?b3) s5" .
  then have "clean (40 # sp2 @ arg @ ?b3) s5"
    by (rule clean_Cons [rotated 2]) simp_all
  from clean_spaces [OF sp1(2) this] have cb: "clean ?body s5" .
  define pre where "pre = tok @ ?body"
  have "s = pre @ s5" using tok(1) s1 by (simp add: pre_def)
  with m have "m0 = pre" by simp
  then have m0: "m0 = tok @ ?body" by (simp add: pre_def)
  have "\<exists>b. ?body = b @ [123]"
    by (rule exI [of _ "sp1 @ 40 # sp2 @ arg @ sp3 @ 44 # sp4"]) simp
  moreover have "\<exists>w. w \<noteq> [] \<and> ((g3 = Some w \<and> g4 = None) \<or> (g3 = None \<and> g4 = Some w))"
    using arg(2,4) by blast
  moreover have "s = tok @ ?body @ s5" using tok(1) s1 by simp
  ultimately show ?thesis using m0 tok(2) cb by blast
qed

subsection \<open>The matcher and the pattern read as a language\<close>

text \<open>
  \<open>pattern_matches s m0 g3 g4\<close> reads the regular expression as a description of
  strings: \<open>s\<close> starts with \<open>m0\<close>, and \<open>m0\<close> is a call spelling, spaces, \<open>(\<close>,
  spaces, a first argument (a word between two equal quotes, captured by group 3, or a
  bare word, captured by group 4), spaces, a comma, spaces and \<open>{\<close>. The matcher
  \<open>match_here\<close> returns a match exactly when the string has such a reading, and then
  the reading is the only one.
\<close>

definition all_spaces :: "jsstring \<Rightarrow> bool" where
  "all_spaces sp = list_all is_space sp"

definition all_word :: "jsstring \<Rightarrow> bool" where
  "all_word w = list_all is_word w"

definition pattern_matches ::
  "jsstring \<Rightarrow> jsstring \<Rightarrow> jsstring option \<Rightarrow> jsstring option \<Rightarrow> bool" where
  "pattern_matches s m0 g3 g4 =
     (\<exists>callee sp1 sp2 arg w sp3 sp4 rest.
        s = m0 @ rest
        \<and> m0 = callee @ sp1 @ [40] @ sp2 @ arg @ sp3 @ [44] @ sp4 @ [123]
        \<and> (callee = js ''React.createElement'' \<or> callee = js ''e'')
        \<and> all_spaces sp1 \<and> all_spaces sp2 \<and> all_spaces sp3 \<and> all_spaces sp4
        \<and> w \<noteq> [] \<and> all_word w
        \<and> ((\<exists>q. (q = 34 \<or> q = 39) \<and> arg = [q] @ w @ [q] \<and> g3 = Some w \<and> g4 = None)
           \<or> (arg = w \<and> g3 = None \<and> g4 = Some w)))"

lemma skip_spaces_append:
  assumes "all_spaces sp" and "r = [] \<or> \<not> is_space (hd r)"
  shows "skip_spaces (sp @ r) = r"
proof -
  from assms(1) have "\<forall>c\<in>set sp. is_space c" by (simp add: all_spaces_def list_all_iff)
  then have "dropWhile is_space (sp @ r) = dropWhile is_space r"
    by (simp add: dropWhile_append)
  also from assms(2) have "\<dots> = r" by (cases r) auto
  finally show ?thesis by (simp add: skip_spaces_def)
qed

lemma word_run:
  assumes "all_word w" and "r = [] \<or> \<not> is_word (hd r)"
  shows "takeWhile is_word (w @ r) = w \<and> dropWhile is_word (w @ r) = r"
proof -
  from assms(1) have w: "\<forall>c\<in>set w. is_word c" by (simp add: all_word_def list_all_iff)
  from assms(2) have r: "takeWhile is_word r = [] \<and> dropWhile is_word r = r"
    by (cases r) auto
  from w r show ?thesis by (simp add: takeWhile_append dropWhile_append)
qed

lemma match_callee_complete:
  assumes "callee = js ''React.createElement'' \<or> callee = js ''e''"
  shows "match_callee (callee @ r) = Some r"
  using assms by (auto simp: match_callee_def js_def)

lemma match_arg_complete:
  assumes w: "w \<noteq> []" "all_word w"
    and r: "r = [] \<or> (\<not> is_word (hd r))"
    and a: "(\<exists>q. (q = 34 \<or> q = 39) \<and> arg = [q] @ w @ [q] \<and> g3 = Some w \<and> g4 = None)
           \<or> (arg = w \<and> g3 = None \<and> g4 = Some w)"
  shows "match_arg (arg @ r) = Some (g3, g4, r)"
proof (cases "g4 = None")
  case True
  with a obtain q where q: "q = 34 \<or> q = 39" and arg: "arg = [q] @ w @ [q]"
    and g: "g3 = Some w" by auto
  from q have "\<not> is_word q" by (auto simp: is_word_def)
  with word_run [OF w(2), of "q # r"]
  have "takeWhile is_word (w @ q # r) = w" "dropWhile is_word (w @ q # r) = q # r"
    by simp_all
  with w(1) q arg g True show ?thesis
    by (auto simp: match_arg_def Let_def expect_def)
next
  case False
  with a have arg: "arg = w" and g: "g3 = None" "g4 = Some w" by auto
  from w obtain c t where ct: "w = c # t" by (cases w) auto
  with w(2) have "is_word c" by (simp add: all_word_def)
  then have nq: "c \<noteq> 34" "c \<noteq> 39" by (auto simp: is_word_def)
  from word_run [OF w(2) r]
  have "takeWhile is_word (w @ r) = w" "dropWhile is_word (w @ r) = r" by simp_all
  with w(1) arg g nq ct show ?thesis
    by (auto simp: match_arg_def Let_def)
qed

lemma match_here_complete:
  assumes "pattern_matches s m0 g3 g4"
  shows "match_here s = Some (m0, g3, g4)"
proof -
  from assms obtain callee sp1 sp2 arg w sp3 sp4 rest where
    s: "s = m0 @ rest" and
    m0: "m0 = callee @ sp1 @ [40] @ sp2 @ arg @ sp3 @ [44] @ sp4 @ [123]" and
    callee: "callee = js ''React.createElement'' \<or> callee = js ''e''" and
    sp: "all_spaces sp1" "all_spaces sp2" "all_spaces sp3" "all_spaces sp4" and
    w: "w \<noteq> []" "all_word w" and
    arg: "(\<exists>q. (q = 34 \<or> q = 39) \<and> arg = [q] @ w @ [q] \<and> g3 = Some w \<and> g4 = None)
           \<or> (arg = w \<and> g3 = None \<and> g4 = Some w)"
    unfolding pattern_matches_def by blast
  let ?s5 = rest
  let ?s4 = "sp4 @ 123 # ?s5"
  let ?s3 = "sp3 @ 44 # ?s4"
  let ?a = "arg @ ?s3"
  let ?s2 = "sp2 @ ?a"
  let ?s1 = "sp1 @ 40 # ?s2"
  have full: "s = callee @ ?s1" using s m0 by simp
  have c: "match_callee s = Some ?s1"
    unfolding full by (rule match_callee_complete [OF callee])
  have ns: "\<not> is_space 40" "\<not> is_space 44" "\<not> is_space 123"
    by (simp_all add: is_space_def)
  have k1: "skip_spaces ?s1 = 40 # ?s2" using ns by (intro skip_spaces_append sp) simp
  have k3: "skip_spaces ?s3 = 44 # ?s4" using ns by (intro skip_spaces_append sp) simp
  have k4: "skip_spaces ?s4 = 123 # ?s5" using ns by (intro skip_spaces_append sp) simp
  from w obtain c0 t0 where w0: "w = c0 # t0" "is_word c0"
    by (cases w) (auto simp: all_word_def)
  have hd_arg: "\<not> is_space (hd ?a)"
  proof (cases "g4 = None")
    case True
    with arg obtain q where "q = 34 \<or> q = 39" "arg = [q] @ w @ [q]" by auto
    then show ?thesis by (auto simp: is_space_def)
  next
    case False
    with arg have "arg = w" by auto
    with w0 show ?thesis using space_not_word by auto
  qed
  have k2: "skip_spaces ?s2 = ?a" using hd_arg by (intro skip_spaces_append sp) simp
  have r3: "?s3 = [] \<or> \<not> is_word (hd ?s3)"
  proof (cases sp3)
    case Nil
    then show ?thesis by (simp add: is_word_def)
  next
    case (Cons d u)
    with sp(3) have "is_space d" by (simp add: all_spaces_def)
    with Cons show ?thesis using space_not_word by simp
  qed
  have a: "match_arg ?a = Some (g3, g4, ?s3)"
    by (rule match_arg_complete [OF w r3 arg])
  have len: "length s - length rest = length m0" using s by simp
  show ?thesis
    unfolding match_here_def c
    by (simp add: k1 k2 k3 k4 a expect_def len s)
qed

lemma match_here_sound:
  assumes "match_here s = Some (m0, g3, g4)"
  shows "pattern_matches s m0 g3 g4"
proof -
  from assms obtain s1 s2 s3 s4 s5 where
    c: "match_callee s = Some s1" and
    p: "expect 40 (skip_spaces s1) = Some s2" and
    a: "match_arg (skip_spaces s2) = Some (g3, g4, s3)" and
    k: "expect 44 (skip_spaces s3) = Some s4" and
    b: "expect 123 (skip_spaces s4) = Some s5" and
    m: "m0 = take (length s - length s5) s"
    by (auto simp: match_here_def split: option.splits)
  from match_callee_decomp [OF c] obtain callee where
    callee: "s = callee @ s1" "callee = js ''React.createElement'' \<or> callee = js ''e''" by blast
  from skip_spaces_decomp [of s1] p obtain sp1 where
    sp1: "s1 = sp1 @ 40 # s2" "all_spaces sp1"
    by (auto simp: expect_Some all_spaces_def list_all_iff)
  from skip_spaces_decomp [of s2] obtain sp2 where
    sp2: "s2 = sp2 @ skip_spaces s2" "all_spaces sp2"
    by (auto simp: all_spaces_def list_all_iff)
  from match_arg_decomp [OF a] obtain arg w where
    arg: "skip_spaces s2 = arg @ s3" "w \<noteq> []" "all_word w"
      "(\<exists>q. (q = 34 \<or> q = 39) \<and> arg = [q] @ w @ [q] \<and> g3 = Some w \<and> g4 = None) \<or>
       (arg = w \<and> g3 = None \<and> g4 = Some w)"
    by (auto simp: all_word_def list_all_iff)
  from skip_spaces_decomp [of s3] k obtain sp3 where
    sp3: "s3 = sp3 @ 44 # s4" "all_spaces sp3"
    by (auto simp: expect_Some all_spaces_def list_all_iff)
  from skip_spaces_decomp [of s4] b obtain sp4 where
    sp4: "s4 = sp4 @ 123 # s5" "all_spaces sp4"
    by (auto simp: expect_Some all_spaces_def list_all_iff)
  define pre where "pre = callee @ sp1 @ [40] @ sp2 @ arg @ sp3 @ [44] @ sp4 @ [123]"
  have s: "s = pre @ s5"
    using callee(1) sp1(1) sp2(1) arg(1) sp3(1) sp4(1) by (simp add: pre_def)
  with m have "m0 = pre" by simp
  with s callee(2) sp1(2) sp2(2) sp3(2) sp4(2) arg(2,3,4) show ?thesis
    unfolding pattern_matches_def pre_def by blast
qed

lemma match_here_iff_pattern:
  "match_here s = Some (m0, g3, g4) \<longleftrightarrow> pattern_matches s m0 g3 g4"
  using match_here_sound match_here_complete by blast

lemma React_interior:
  assumes "js ''React.createElement'' = u @ v" and "u \<noteq> []" and "v \<noteq> []"
  shows "\<not> starts_call (v @ k)"
  using assms
  by (auto simp: js_def Cons_eq_append_conv starts_call_def match_callee_def skip_spaces_def
      expect_def is_space_def)

lemma no_overlap:
  assumes m: "match_here s = Some (m0, g3, g4)" and j: "0 < j" "j < length m0"
  shows "match_here (drop j s) = None"
proof -
  from match_here_decomp [OF m] obtain tok body s5 where
    s: "s = tok @ body @ s5" and m0: "m0 = tok @ body" and
    tok: "tok = js ''React.createElement'' \<or> tok = js ''e''" and
    cl: "clean body s5" by blast
  have "\<not> starts_call (drop j s)"
  proof (cases "j < length tok")
    case True
    with j tok have t: "tok = js ''React.createElement''" by (auto simp: js_def)
    have "drop j s = drop j tok @ body @ s5" using s True by simp
    moreover have "\<not> starts_call (drop j tok @ (body @ s5))"
    proof (rule React_interior)
      show "js ''React.createElement'' = take j tok @ drop j tok" using t by simp
      show "take j tok \<noteq> []" using j True by auto
      show "drop j tok \<noteq> []" using True by simp
    qed
    ultimately show ?thesis by simp
  next
    case False
    let ?i = "j - length tok"
    from False j m0 have i: "?i < length body" by simp
    have "drop j s = drop ?i body @ s5" using s False i by simp
    moreover have "\<not> starts_call (drop ?i body @ s5)"
      using cl i unfolding clean_def
      by (metis append_take_drop_id drop_eq_Nil not_le)
    ultimately show ?thesis by simp
  qed
  then show ?thesis
    by (cases "match_here (drop j s)") (auto dest: match_here_starts_call)
qed

subsection \<open>The search finds the first match and skips none\<close>

lemma match_here_Nil: "match_here [] = None"
  by (simp add: match_here_def match_callee_def js_def)

lemma match_at_bounded: "match_at text j = Some m \<Longrightarrow> j < length text"
  by (rule ccontr) (simp add: match_at_def match_here_Nil)

lemma match_at_no_overlap:
  assumes "match_at text i = Some m" and "i < j" and "j < i + length (m_text m)"
  shows "match_at text j = None"
proof -
  from assms(1) have "match_here (drop i text) = Some (m_text m, m_group3 m, m_group4 m)"
    by (simp add: match_at_Some)
  from no_overlap [OF this, of "j - i"] assms(2,3) show ?thesis
    by (simp add: match_at_None)
qed

lemma match_at_class:
  assumes "match_at text i = Some m"
  shows "\<exists>w. w \<noteq> [] \<and> or_str (m_group3 m) (m_group4 m) = Some w"
proof -
  from assms have "match_here (drop i text) = Some (m_text m, m_group3 m, m_group4 m)"
    by (simp add: match_at_Some)
  from match_here_decomp [OF this] show ?thesis
    by (auto simp: or_str_def truthy_str_def)
qed

lemma find_match_None_iff:
  "find_match text l = None \<longleftrightarrow> (\<forall>j\<ge>l. match_at text j = None)"
proof (induction "text" l rule: find_match.induct)
  case (1 t i)
  show ?case
  proof (cases "length t < i")
    case True
    then show ?thesis
      by (simp add: find_match.simps [of t i] match_at_def match_here_Nil)
  next
    case False
    show ?thesis
    proof (cases "match_at t i")
      case None
      have "(\<forall>j\<ge>i. match_at t j = None) \<longleftrightarrow> (\<forall>j\<ge>Suc i. match_at t j = None)"
        using None by (metis Suc_leD Suc_le_eq le_neq_implies_less)
      with "1.IH" [OF False None] False None show ?thesis
        by (simp add: find_match.simps [of t i])
    next
      case (Some r)
      with False show ?thesis
        by (auto simp: find_match.simps [of t i])
    qed
  qed
qed

lemma find_match_least:
  "find_match text l = Some m \<Longrightarrow> l \<le> j \<Longrightarrow> j < m_index m \<Longrightarrow> match_at text j = None"
proof (induction "text" l rule: find_match.induct)
  case (1 t i)
  show ?case
  proof (cases "length t < i")
    case True
    with "1.prems" show ?thesis by (simp add: find_match.simps [of t i])
  next
    case False
    show ?thesis
    proof (cases "match_at t i")
      case None
      with False "1.prems" have f: "find_match t (Suc i) = Some m"
        by (simp add: find_match.simps [of t i])
      show ?thesis
      proof (cases "j = i")
        case True
        with None show ?thesis by simp
      next
        case False
        with "1.prems" have "Suc i \<le> j" by simp
        from "1.IH" [OF \<open>\<not> length t < i\<close> None f this "1.prems"(3)] show ?thesis .
      qed
    next
      case (Some r)
      with False "1.prems" have "r = m" by (simp add: find_match.simps [of t i])
      with Some have "m_index m = i" by (simp add: match_at_Some)
      with "1.prems" show ?thesis by simp
    qed
  qed
qed

text \<open>
  One step of a scan that has a match at \<open>i\<close> ahead of it: \<open>exec\<close> returns a match
  that starts at \<open>i\<close> or ends at or before \<open>i\<close>.
\<close>

lemma exec_step:
  assumes i: "match_at text i = Some mi" and l: "l \<le> i"
  obtains m where "exec text l = (Some m, m_index m + length (m_text m))"
    and "match_at text (m_index m) = Some m"
    and "l \<le> m_index m"
    and "0 < length (m_text m)"
    and "m = mi \<or> m_index m + length (m_text m) \<le> i"
proof -
  from i l have "find_match text l \<noteq> None"
    by (auto simp: find_match_None_iff)
  then obtain m where f: "find_match text l = Some m" by auto
  note fm = find_match_Some [OF f]
  from fm have at: "match_at text (m_index m) = Some m" by simp
  have le: "m_index m \<le> i"
  proof (rule ccontr)
    assume "\<not> m_index m \<le> i"
    then have "i < m_index m" by simp
    from find_match_least [OF f l this] i show False by simp
  qed
  have "m = mi \<or> m_index m + length (m_text m) \<le> i"
  proof (cases "m_index m = i")
    case True
    with at i show ?thesis by simp
  next
    case False
    with le have lt: "m_index m < i" by simp
    have "m_index m + length (m_text m) \<le> i"
    proof (rule ccontr)
      assume "\<not> m_index m + length (m_text m) \<le> i"
      then have "i < m_index m + length (m_text m)" by simp
      from match_at_no_overlap [OF at lt this] i show False by simp
    qed
    then show ?thesis ..
  qed
  moreover from f have "exec text l = (Some m, m_index m + length (m_text m))"
    by (simp add: exec_def)
  moreover from at have "0 < length (m_text m)"
    using match_here_length [of "drop (m_index m) text" "m_text m" "m_group3 m" "m_group4 m"]
    by (simp add: match_at_Some)
  ultimately show ?thesis using fm that by blast
qed

subsection \<open>The resolver returns the class of the last match\<close>

lemma loop_no_match:
  assumes "\<forall>j\<ge>l. match_at text j = None"
  shows "getEnclosingClassName_loop text l acc = acc"
proof -
  from assms have "find_match text l = None" by (simp add: find_match_None_iff)
  then show ?thesis
    by (simp add: getEnclosingClassName_loop.simps [of "text" l] exec_def)
qed

lemma loop_last_match:
  assumes i: "match_at text i = Some mi"
    and last: "\<forall>j>i. match_at text j = None"
  shows "l \<le> i \<Longrightarrow>
    getEnclosingClassName_loop text l acc = or_str (m_group3 mi) (m_group4 mi)"
proof (induction "i - l" arbitrary: l acc rule: less_induct)
  case less
  from exec_step [OF i less.prems] obtain m where
    e: "exec text l = (Some m, m_index m + length (m_text m))" and
    h: "match_at text (m_index m) = Some m" and
    lm: "l \<le> m_index m" and
    pos: "0 < length (m_text m)" and
    c: "m = mi \<or> m_index m + length (m_text m) \<le> i" by blast
  from match_at_class [OF h] have t: "truthy_str (or_str (m_group3 m) (m_group4 m))"
    by (auto simp: truthy_str_def)
  let ?l' = "m_index m + length (m_text m)"
  have step: "getEnclosingClassName_loop text l acc
      = getEnclosingClassName_loop text ?l' (or_str (m_group3 m) (m_group4 m))"
    using e t by (simp add: getEnclosingClassName_loop.simps [of "text" l])
  show ?case
  proof (cases "m = mi")
    case True
    with i h have ix: "m_index m = i" by (simp add: match_at_Some)
    have "\<forall>j\<ge>?l'. match_at text j = None"
    proof (intro allI impI)
      fix j assume "?l' \<le> j"
      with ix pos have "i < j" by linarith
      with last show "match_at text j = None" by simp
    qed
    from loop_no_match [OF this] step True show ?thesis by simp
  next
    case False
    with c have le: "?l' \<le> i" by simp
    with lm pos have "i - ?l' < i - l" by linarith
    from less.hyps [OF this le] step show ?thesis by simp
  qed
qed

lemma last_match_exists:
  assumes "match_at text i \<noteq> None"
  shows "\<exists>k m. match_at text k = Some m \<and> (\<forall>j>k. match_at text j = None)"
proof -
  let ?P = "\<lambda>j. match_at text j \<noteq> None"
  have "\<forall>y. ?P y \<longrightarrow> y < length text"
    using match_at_bounded [of "text"] by blast
  from ex_has_greatest_nat [of ?P i "\<lambda>j. j" "length text", OF assms this] obtain k where
    k: "?P k" "\<forall>y. ?P y \<longrightarrow> y \<le> k" by blast
  have "\<forall>j>k. match_at text j = None"
  proof (intro allI impI)
    fix j assume "k < j"
    with k(2) have "\<not> ?P j" by (metis not_le)
    then show "match_at text j = None" by blast
  qed
  with k(1) show ?thesis by blast
qed

lemma resolver_None_iff:
  "getEnclosingClassName text = None \<longleftrightarrow> (\<forall>i. match_at text i = None)"
proof
  assume n: "getEnclosingClassName text = None"
  show "\<forall>i. match_at text i = None"
  proof (rule ccontr)
    assume "\<not> (\<forall>i. match_at text i = None)"
    then obtain i where "match_at text i \<noteq> None" by blast
    from last_match_exists [OF this] obtain k m where
      k: "match_at text k = Some m" "\<forall>j>k. match_at text j = None" by auto
    from loop_last_match [OF k, of 0 None]
    have "getEnclosingClassName text = or_str (m_group3 m) (m_group4 m)"
      by (simp add: getEnclosingClassName_def)
    with match_at_class [OF k(1)] n show False by auto
  qed
next
  assume "\<forall>i. match_at text i = None"
  then show "getEnclosingClassName text = None"
    by (simp add: getEnclosingClassName_def loop_no_match)
qed

lemma resolver_Some:
  assumes "getEnclosingClassName text = Some c"
  shows "\<exists>i m. match_at text i = Some m \<and> (\<forall>j>i. match_at text j = None)
           \<and> or_str (m_group3 m) (m_group4 m) = Some c \<and> c \<noteq> []"
proof -
  from assms have "\<not> (\<forall>i. match_at text i = None)"
    by (simp add: resolver_None_iff [symmetric])
  then obtain i where "match_at text i \<noteq> None" by blast
  from last_match_exists [OF this] obtain k m where
    k: "match_at text k = Some m" "\<forall>j>k. match_at text j = None" by auto
  from loop_last_match [OF k, of 0 None]
  have "getEnclosingClassName text = or_str (m_group3 m) (m_group4 m)"
    by (simp add: getEnclosingClassName_def)
  with assms match_at_class [OF k(1)] k show ?thesis by auto
qed

lemma match_at_suffix:
  assumes m: "match_here b = Some (b, g3, g4)"
  shows "match_at (a @ b) (length a)
           = Some \<lparr>m_index = length a, m_text = b, m_group3 = g3, m_group4 = g4\<rparr>
         \<and> (\<forall>j>length a. match_at (a @ b) j = None)"
proof
  show at: "match_at (a @ b) (length a)
      = Some \<lparr>m_index = length a, m_text = b, m_group3 = g3, m_group4 = g4\<rparr>"
    using m by (simp add: match_at_def)
  show "\<forall>j>length a. match_at (a @ b) j = None"
  proof (intro allI impI)
    fix j assume j: "length a < j"
    show "match_at (a @ b) j = None"
    proof (cases "j < length a + length b")
      case True
      from match_at_no_overlap [OF at j] True show ?thesis by simp
    next
      case False
      then show ?thesis by (simp add: match_at_def match_here_Nil)
    qed
  qed
qed

section \<open>The containment checker: where the walk starts\<close>

text \<open>
  The first loop of \<open>isInsidePropsObject\<close> ends with the index of the \<open>{\<close> of the last
  match whose class is \<open>className\<close>: that brace is the last code unit of the match.
\<close>

lemma lastIndexOf_snoc: "lastIndexOf (b @ [c]) c = int (length b)"
  by (induction b) (simp_all add: Let_def)

lemma match_at_brace:
  assumes "match_at text i = Some m"
  shows "lastIndexOf (m_text m) 123 = int (length (m_text m)) - 1
         \<and> i + length (m_text m) \<le> length text
         \<and> 0 < length (m_text m)
         \<and> text ! (i + length (m_text m) - 1) = 123"
proof -
  from assms have h: "match_here (drop i text) = Some (m_text m, m_group3 m, m_group4 m)"
    by (simp add: match_at_Some)
  from match_here_decomp [OF h] obtain tok body s5 b where
    d: "drop i text = tok @ body @ s5" and m: "m_text m = tok @ body" and b: "body = b @ [123]"
    by blast
  from m b have mt: "m_text m = (tok @ b) @ [123]" by simp
  have l: "lastIndexOf (m_text m) 123 = int (length (m_text m)) - 1"
    unfolding mt lastIndexOf_snoc by simp
  from match_here_length [OF h] have len: "0 < length (m_text m)"
    "length (m_text m) \<le> length (drop i text)" by simp_all
  from match_at_bounded [OF assms] len have le: "i + length (m_text m) \<le> length text" by simp
  have "drop i text ! (length (tok @ b)) = 123"
    using d b by (simp add: nth_append)
  moreover have "length (tok @ b) = length (m_text m) - 1" using mt by simp
  ultimately have "text ! (i + (length (m_text m) - 1)) = 123"
    using le len by (simp add: nth_drop)  
  moreover from len have "i + length (m_text m) - 1 = i + (length (m_text m) - 1)"
    by linarith
  ultimately show ?thesis using len l le by simp
qed

lemma props_loop_no_class:
  assumes "\<forall>j\<ge>l. \<forall>m. match_at text j = Some m \<longrightarrow> or_str (m_group3 m) (m_group4 m) \<noteq> Some c"
  shows "propsStartIndex_loop text c l acc = acc"
  using assms
proof (induction "length text - l" arbitrary: l rule: less_induct)
  case less
  show ?case
  proof (cases "find_match text l")
    case None
    then show ?thesis by (simp add: propsStartIndex_loop.simps [of "text" c l] exec_def)
  next
    case (Some m)
    let ?l' = "m_index m + length (m_text m)"
    from Some have e: "exec text l = (Some m, ?l')" by (simp add: exec_def)
    from exec_Some [OF e] have b: "l < ?l'" "?l' \<le> length text" "l \<le> m_index m" by simp_all
    from find_match_Some [OF Some] have "match_at text (m_index m) = Some m" by simp
    with less.prems b(3) have "or_str (m_group3 m) (m_group4 m) \<noteq> Some c" by blast
    with e have "propsStartIndex_loop text c l acc = propsStartIndex_loop text c ?l' acc"
      by (simp add: propsStartIndex_loop.simps [of "text" c l])
    moreover from b have "length text - ?l' < length text - l" by linarith
    moreover from less.prems b(1)
    have "\<forall>j\<ge>?l'. \<forall>m. match_at text j = Some m \<longrightarrow> or_str (m_group3 m) (m_group4 m) \<noteq> Some c"
      by (meson le_trans less_imp_le)
    ultimately show ?thesis using less.hyps by simp
  qed
qed

lemma props_loop_last:
  assumes i: "match_at text i = Some mi"
    and cls: "or_str (m_group3 mi) (m_group4 mi) = Some c"
    and last: "\<forall>j>i. \<forall>m. match_at text j = Some m \<longrightarrow> or_str (m_group3 m) (m_group4 m) \<noteq> Some c"
  shows "l \<le> i \<Longrightarrow>
    propsStartIndex_loop text c l acc = int i + int (length (m_text mi)) - 1"
proof (induction "i - l" arbitrary: l acc rule: less_induct)
  case less
  from exec_step [OF i less.prems] obtain m where
    e: "exec text l = (Some m, m_index m + length (m_text m))" and
    h: "match_at text (m_index m) = Some m" and
    lm: "l \<le> m_index m" and
    pos: "0 < length (m_text m)" and
    c: "m = mi \<or> m_index m + length (m_text m) \<le> i" by blast
  let ?l' = "m_index m + length (m_text m)"
  show ?case
  proof (cases "m = mi")
    case True
    with i h have ix: "m_index m = i" by (simp add: match_at_Some)
    have "\<forall>j\<ge>?l'. \<forall>m. match_at text j = Some m \<longrightarrow> or_str (m_group3 m) (m_group4 m) \<noteq> Some c"
    proof (intro allI impI)
      fix j m' assume "?l' \<le> j" and m': "match_at text j = Some m'"
      with ix pos have "i < j" by linarith
      with last m' show "or_str (m_group3 m') (m_group4 m') \<noteq> Some c" by blast
    qed
    from props_loop_no_class [OF this]
    have "propsStartIndex_loop text c l acc
        = int (m_index m) + lastIndexOf (m_text m) 123"
      using e True cls by (simp add: propsStartIndex_loop.simps [of "text" c l] Let_def)
    with match_at_brace [OF h] True ix show ?thesis by simp
  next
    case False
    with c have le: "?l' \<le> i" by simp
    with lm pos have d: "i - ?l' < i - l" by linarith
    have "\<exists>acc'. propsStartIndex_loop text c l acc = propsStartIndex_loop text c ?l' acc'"
      using e by (auto simp: propsStartIndex_loop.simps [of "text" c l] Let_def)
    then obtain acc' where
      "propsStartIndex_loop text c l acc = propsStartIndex_loop text c ?l' acc'" ..
    with less.hyps [OF d le] show ?thesis by simp
  qed
qed

section \<open>The containment checker: the depth counter\<close>

text \<open>
  The depth counter as the specification describes it: after the code units
  \<open>start, ..., k\<close> of the text, the depth is the number of \<open>{\<close> among them minus the
  number of \<open>}\<close>. It is compared with the \<open>for\<close> loop of the source below.
\<close>

definition depth_at :: "jsstring \<Rightarrow> nat \<Rightarrow> nat \<Rightarrow> int" where
  "depth_at text start k =
     int (count_list (take (Suc k - start) (drop start text)) 123)
     - int (count_list (take (Suc k - start) (drop start text)) 125)"

text \<open>What one code unit adds to the depth.\<close>

definition brace_delta :: "nat \<Rightarrow> int" where
  "brace_delta ch = (if ch = 123 then 1 else if ch = 125 then -1 else 0)"

lemma depth_at_step:
  assumes "i < length text" and "i \<le> k"
  shows "depth_at text i k = brace_delta (text ! i) + depth_at text (Suc i) k"
proof -
  from assms(2) have "Suc k - i = Suc (k - i)" by simp
  moreover from assms(1) have "drop i text = text ! i # drop (Suc i) text"
    by (simp add: Cons_nth_drop_Suc)
  ultimately have "take (Suc k - i) (drop i text) = text ! i # take (k - i) (drop (Suc i) text)"
    by simp
  then show ?thesis by (simp add: depth_at_def brace_delta_def)
qed

lemma depth_at_empty: "depth_at text (Suc i) i = 0"
  by (simp add: depth_at_def)

text \<open>
  \<open>zero_from text i d\<close>: starting with depth \<open>d\<close> before index \<open>i\<close>, the depth is zero
  after some index from \<open>i\<close> on.
\<close>

definition zero_from :: "jsstring \<Rightarrow> nat \<Rightarrow> int \<Rightarrow> bool" where
  "zero_from text i d = (\<exists>k. i \<le> k \<and> k < length text \<and> d + depth_at text i k = 0)"

lemma zero_from_step:
  assumes "i < length text"
  shows "zero_from text i d \<longleftrightarrow>
           d + brace_delta (text ! i) = 0 \<or> zero_from text (Suc i) (d + brace_delta (text ! i))"
proof
  assume "zero_from text i d"
  then obtain k where k: "i \<le> k" "k < length text" "d + depth_at text i k = 0"
    by (auto simp: zero_from_def)
  from depth_at_step [OF assms k(1)] k(3)
  have z: "(d + brace_delta (text ! i)) + depth_at text (Suc i) k = 0" by simp
  show "d + brace_delta (text ! i) = 0 \<or> zero_from text (Suc i) (d + brace_delta (text ! i))"
  proof (cases "k = i")
    case True
    with z show ?thesis by (simp add: depth_at_empty)
  next
    case False
    with k(1) have "Suc i \<le> k" by simp
    with k(2) z show ?thesis unfolding zero_from_def by blast
  qed
next
  assume "d + brace_delta (text ! i) = 0 \<or> zero_from text (Suc i) (d + brace_delta (text ! i))"
  then show "zero_from text i d"
  proof
    assume "d + brace_delta (text ! i) = 0"
    with depth_at_step [OF assms, of i] have "d + depth_at text i i = 0"
      by (simp add: depth_at_empty)
    with assms show ?thesis unfolding zero_from_def by blast
  next
    assume "zero_from text (Suc i) (d + brace_delta (text ! i))"
    then obtain k where k: "Suc i \<le> k" "k < length text"
      "(d + brace_delta (text ! i)) + depth_at text (Suc i) k = 0"
      by (auto simp: zero_from_def)
    from k(1) have "i \<le> k" by simp
    from depth_at_step [OF assms this] k(3) have "d + depth_at text i k = 0" by simp
    with \<open>i \<le> k\<close> k(2) show ?thesis unfolding zero_from_def by blast
  qed
qed

lemma brace_loop_depth:
  assumes "1 \<le> d" and "start < i"
  shows "brace_loop text start i d = zero_from text i d"
  using assms
proof (induction "length text - i" arbitrary: i d rule: less_induct)
  case less
  show ?case
  proof (cases "i < length text")
    case False
    then show ?thesis
      by (simp add: brace_loop.simps [of "text" start i d] zero_from_def)
  next
    case True
    have m: "length text - Suc i < length text - i" using True by simp
    have s: "start < Suc i" using less.prems by simp
    note z = zero_from_step [OF True, of d]
    show ?thesis
    proof (cases "text ! i = 123")
      case True
      have "brace_loop text start i d = brace_loop text start (Suc i) (d + 1)"
        using True \<open>i < length text\<close> by (simp add: brace_loop.simps [of "text" start i d])
      also have "\<dots> = zero_from text (Suc i) (d + 1)"
        using less.prems by (intro less.hyps [OF m _ s]) simp
      also have "\<dots> = zero_from text i d"
        using z True less.prems by (simp add: brace_delta_def)
      finally show ?thesis .
    next
      case False
      note not_open = this
      show ?thesis
      proof (cases "text ! i = 125")
        case True
        show ?thesis
        proof (cases "d = 1")
          case True
          have "brace_loop text start i d"
            using True \<open>text ! i = 125\<close> \<open>i < length text\<close> less.prems
            by (subst brace_loop.simps) simp
          moreover have "zero_from text i d"
            using z True \<open>text ! i = 125\<close> by (simp add: brace_delta_def)
          ultimately show ?thesis by simp
        next
          case False
          have "brace_loop text start i d = brace_loop text start (Suc i) (d - 1)"
            using False \<open>text ! i = 125\<close> \<open>i < length text\<close>
            by (simp add: brace_loop.simps [of "text" start i d])
          also have "\<dots> = zero_from text (Suc i) (d - 1)"
            using less.prems False by (intro less.hyps [OF m _ s]) simp
          also have "\<dots> = zero_from text i d"
            using z False \<open>text ! i = 125\<close> by (simp add: brace_delta_def)
          finally show ?thesis .
        qed
      next
        case False
        have "brace_loop text start i d = brace_loop text start (Suc i) d"
          using False not_open \<open>i < length text\<close>
          by (simp add: brace_loop.simps [of "text" start i d])
        also have "\<dots> = zero_from text (Suc i) d"
          by (rule less.hyps [OF m less.prems(1) s])
        also have "\<dots> = zero_from text i d"
          using z False not_open less.prems by (simp add: brace_delta_def)
        finally show ?thesis .
      qed
    qed
  qed
qed

lemma brace_loop_from_brace:
  assumes "start < length text" and "text ! start = 123"
  shows "brace_loop text start start 0
           = (\<exists>k. start < k \<and> k < length text \<and> depth_at text start k = 0)"
proof -
  have "brace_loop text start start 0 = brace_loop text start (Suc start) 1"
    using assms by (simp add: brace_loop.simps [of "text" start start 0])
  also have "\<dots> = zero_from text (Suc start) 1"
    by (rule brace_loop_depth) simp_all
  also have "\<dots> = zero_from text start 0"
    using zero_from_step [OF assms(1), of 0] assms(2) by (simp add: brace_delta_def)
  also have "\<dots> = (\<exists>k. start < k \<and> k < length text \<and> depth_at text start k = 0)"
  proof -
    have "depth_at text start start \<noteq> 0"
      using depth_at_step [OF assms(1), of start] assms(2)
      by (simp add: depth_at_empty brace_delta_def)
    show ?thesis
    proof
      assume "zero_from text start 0"
      then obtain k where k: "start \<le> k" "k < length text" "depth_at text start k = 0"
        by (auto simp: zero_from_def)
      with \<open>depth_at text start start \<noteq> 0\<close> have "k \<noteq> start" by auto
      with k(1) have "start < k" by simp
      with k show "\<exists>k. start < k \<and> k < length text \<and> depth_at text start k = 0" by blast
    next
      assume "\<exists>k. start < k \<and> k < length text \<and> depth_at text start k = 0"
      then obtain k where "start < k" "k < length text" "depth_at text start k = 0" by blast
      then have "start \<le> k \<and> k < length text \<and> 0 + depth_at text start k = 0" by simp
      then show "zero_from text start 0" unfolding zero_from_def by blast
    qed
  qed
  finally show ?thesis .
qed

section \<open>The property resolver: precedence\<close>

text \<open>
  C1, as the spec states it, fails twice. An empty list in the user map is returned as it
  is, since an empty array is truthy, and the built-in list is not used; and a class name
  that is in neither map but names a property of \<open>Object.prototype\<close> resolves to that
  property, not to \<open>undefined\<close>.
\<close>

theorem getPropsForClass_counterexample:
  "defaultPropsMap (js ''Frame'') \<noteq> None
   \<and> getPropsForClass (Some [js ''Frame'' \<mapsto> []]) (js ''Frame'') = JSArray []
   \<and> defaultPropsMap (js ''constructor'') = None
   \<and> getPropsForClass (Some Map.empty) (js ''constructor'') = JSFunction 1"
  by (simp add: props_eval js_def)

lemma defaultPropsMap_own:
  "defaultPropsMap className = Some props \<Longrightarrow> object_prototype className = JSUndefined"
  by (auto simp: defaultPropsMap_def object_prototype_def js_def split: if_splits)

text \<open>
  C1, amended: an entry of the user map for the class is returned as it is, in the user's
  order, whatever its length; when the user map has no entry for the class, or there is
  no user map, and the built-in map has an entry, the built-in list is returned; when
  neither map has an entry and the class name is not the name of a property of
  \<open>Object.prototype\<close>, the result is \<open>undefined\<close>.
\<close>

theorem getPropsForClass_precedence:
  "(userMap className = Some props
      \<longrightarrow> getPropsForClass (Some userMap) className = JSArray props)
   \<and> (userMap className = None \<and> defaultPropsMap className = Some props
      \<longrightarrow> getPropsForClass (Some userMap) className = JSArray props)
   \<and> (defaultPropsMap className = Some props
      \<longrightarrow> getPropsForClass None className = JSArray props)
   \<and> (userMap className = None \<and> defaultPropsMap className = None
       \<and> object_prototype className = JSUndefined
      \<longrightarrow> getPropsForClass (Some userMap) className = JSUndefined
          \<and> getPropsForClass None className = JSUndefined)"
  by (auto simp: getPropsForClass_def get_property_def or_value_def truthy_def
      dest: defaultPropsMap_own)

theorem getPropsForClass_precedence_witness:
  "getPropsForClass (Some [js ''Frame'' \<mapsto> [js ''Size'', js ''Name'']]) (js ''Frame'')
     = JSArray [js ''Size'', js ''Name'']
   \<and> getPropsForClass (Some [js ''Foo'' \<mapsto> [js ''Size'']]) (js ''Frame'')
     = JSArray (map js [''BackgroundColor3'', ''BackgroundTransparency'',
         ''BorderSizePixel'', ''BorderColor3'', ''Size'', ''Position'', ''AnchorPoint'',
         ''Visible'', ''ZIndex'', ''LayoutOrder'', ''AutomaticSize''])
   \<and> getPropsForClass None (js ''Frame'')
     = JSArray (map js [''BackgroundColor3'', ''BackgroundTransparency'',
         ''BorderSizePixel'', ''BorderColor3'', ''Size'', ''Position'', ''AnchorPoint'',
         ''Visible'', ''ZIndex'', ''LayoutOrder'', ''AutomaticSize''])
   \<and> getPropsForClass (Some [js ''Foo'' \<mapsto> [js ''Size'']]) (js ''Bar'') = JSUndefined
   \<and> getPropsForClass None (js ''Bar'') = JSUndefined"
proof -
  let ?frame = "map js [''BackgroundColor3'', ''BackgroundTransparency'',
         ''BorderSizePixel'', ''BorderColor3'', ''Size'', ''Position'', ''AnchorPoint'',
         ''Visible'', ''ZIndex'', ''LayoutOrder'', ''AutomaticSize'']"
  have d: "defaultPropsMap (js ''Frame'') = Some ?frame"
    by (simp add: defaultPropsMap_def js_def)
  have n: "defaultPropsMap (js ''Bar'') = None"
    by (simp add: defaultPropsMap_def js_def)
  have p: "object_prototype (js ''Bar'') = JSUndefined"
    by (simp add: object_prototype_def js_def)
  have u: "[js ''Foo'' \<mapsto> [js ''Size'']] (js ''Frame'') = None"
    "[js ''Foo'' \<mapsto> [js ''Size'']] (js ''Bar'') = None"
    by (simp_all add: js_def)
  show ?thesis
    using getPropsForClass_precedence
        [of "[js ''Frame'' \<mapsto> [js ''Size'', js ''Name'']]" "js ''Frame''"
          "[js ''Size'', js ''Name'']"]
      getPropsForClass_precedence [of "[js ''Foo'' \<mapsto> [js ''Size'']]" "js ''Frame''" ?frame]
      getPropsForClass_precedence [of "[js ''Foo'' \<mapsto> [js ''Size'']]" "js ''Bar''" "[]"]
      d n p u
    by simp
qed

section \<open>The completion builder: one item per property\<close>

text \<open>
  C5: for every class name and every list of property names (the non-empty ones among
  them), the builder returns one item per name, in the same order; the label of an item is
  the name, its insertion text is the name, then \<open> = \<close>, then the cursor marker \<open>$0\<close>, and
  its detail text starts with the class name.
\<close>

theorem buildItemsForProps_items:
  "length (buildItemsForProps className props) = length props
   \<and> map label (buildItemsForProps className props) = props
   \<and> map insertText (buildItemsForProps className props)
       = map (\<lambda>name. name @ js '' = '' @ js ''$0'') props
   \<and> map detail (buildItemsForProps className props)
       = map (\<lambda>name. className @ js '' property (React Luau helper)'') props"
  by (simp add: buildItemsForProps_def js_def comp_def)

section \<open>Call spellings\<close>

text \<open>
  C9: nothing in the pattern asks for a word boundary before \<open>e\<close>. In the window
  \<open>spawnTree("Frame", {\<close> the pattern matches at index 8, the last letter of
  \<open>spawnTree\<close>; the resolver returns \<open>Frame\<close>, as it does behind any text that ends in
  \<open>e\<close>; the cursor is inside the object, and the query completes with the built-in
  properties of \<open>Frame\<close>.
\<close>

theorem resolver_accepts_identifier_ending_in_e:
  \<open>find_match (js ''spawnTree("Frame", {'') 0
     = Some \<lparr>m_index = 8, m_text = js ''e("Frame", {'',
              m_group3 = Some (js ''Frame''), m_group4 = None\<rparr>
   \<and> getEnclosingClassName (js ''spawnTree("Frame", {'') = Some (js ''Frame'')
   \<and> (\<forall>ident. getEnclosingClassName (ident @ js ''e("Frame", {'') = Some (js ''Frame''))
   \<and> isInsidePropsObject (js ''spawnTree("Frame", {'') (js ''Frame'')
   \<and> provideCompletionItems None (js ''spawnTree("Frame", {'') 20
     = Inr (Some (buildItemsForProps (js ''Frame'')
         (map js [''BackgroundColor3'', ''BackgroundTransparency'', ''BorderSizePixel'',
           ''BorderColor3'', ''Size'', ''Position'', ''AnchorPoint'', ''Visible'', ''ZIndex'',
           ''LayoutOrder'', ''AutomaticSize''])))\<close>
proof (intro conjI allI)
  fix ident :: jsstring
  have \<open>match_here (js ''e("Frame", {'') = Some (js ''e("Frame", {'', Some (js ''Frame''), None)\<close>
    by (simp add: match_eval)
  from match_at_suffix [OF this, of ident] loop_last_match [of \<open>ident @ js ''e("Frame", {''\<close> "length ident" _ 0 None]
  show \<open>getEnclosingClassName (ident @ js ''e("Frame", {'') = Some (js ''Frame'')\<close>
    by (simp add: getEnclosingClassName_def or_str_def truthy_str_def js_def)
qed (simp_all add: match_eval scan_eval resolver_eval containment_eval props_eval query_eval)

section \<open>The call-site resolver: the last match\<close>

text \<open>
  C2: the resolver returns no class exactly when the pattern matches nowhere in the
  window; when the pattern matches at index \<open>i\<close> and at no greater index, the resolver
  returns the class captured by the match at \<open>i\<close> (the content of the string literal, or
  else the bare identifier), which is a class name; so for any text \<open>a\<close> followed by a
  call \<open>b\<close> that ends at the cursor the class of \<open>b\<close> is resolved, whatever calls
  \<open>a\<close> holds, as it is for two calls to \<open>A\<close> and \<open>B\<close> in a row.
\<close>

theorem getEnclosingClassName_last_match:
  \<open>(getEnclosingClassName text = None \<longleftrightarrow> (\<forall>i. match_at text i = None))
   \<and> (match_at text i = Some m \<and> (\<forall>j>i. match_at text j = None)
        \<longrightarrow> getEnclosingClassName text = or_str (m_group3 m) (m_group4 m)
          \<and> or_str (m_group3 m) (m_group4 m) \<noteq> None)
   \<and> (match_here b = Some (b, g3, g4) \<longrightarrow> getEnclosingClassName (a @ b) = or_str g3 g4)
   \<and> getEnclosingClassName (js ''e("A", { x = 1 }) e("B", { '') = Some (js ''B'')\<close>
proof (intro conjI impI)
  show "getEnclosingClassName text = None \<longleftrightarrow> (\<forall>i. match_at text i = None)"
    by (rule resolver_None_iff)
next
  assume a: "match_at text i = Some m \<and> (\<forall>j>i. match_at text j = None)"
  then show "getEnclosingClassName text = or_str (m_group3 m) (m_group4 m)"
    using loop_last_match [of "text" i m 0 None] by (simp add: getEnclosingClassName_def)
  from a match_at_class [of "text" i m] show "or_str (m_group3 m) (m_group4 m) \<noteq> None"
    by auto
next
  assume m: "match_here b = Some (b, g3, g4)"
  from match_at_suffix [OF m, of a] loop_last_match [of "a @ b" "length a" _ 0 None]
  show "getEnclosingClassName (a @ b) = or_str g3 g4"
    by (simp add: getEnclosingClassName_def)
next
  show \<open>getEnclosingClassName (js ''e("A", { x = 1 }) e("B", { '') = Some (js ''B'')\<close>
    by (simp add: match_eval scan_eval resolver_eval)
qed

theorem getEnclosingClassName_last_match_witness:
  \<open>getEnclosingClassName (js ''e(A, {'') = Some (js ''A'')
   \<and> getEnclosingClassName (js ''e("A", {}) spawnTre'' @ js ''e("Frame", {'')
       = Some (js ''Frame'')\<close>
proof -
  have h: \<open>match_here (js ''e("Frame", {'') = Some (js ''e("Frame", {'', Some (js ''Frame''), None)\<close>
    by (simp add: match_eval)
  have b: "match_here (js ''e(A, {'') = Some (js ''e(A, {'', None, Some (js ''A''))"
    by (simp add: match_eval)
  from match_at_suffix [OF b, of "[]"]
  have a: "match_at (js ''e(A, {'') 0
      = Some \<lparr>m_index = 0, m_text = js ''e(A, {'', m_group3 = None, m_group4 = Some (js ''A'')\<rparr>"
    "\<forall>j>0. match_at (js ''e(A, {'') j = None"
    by simp_all
  show ?thesis
    using getEnclosingClassName_last_match
        [of "js ''e(A, {''" 0
          "\<lparr>m_index = 0, m_text = js ''e(A, {'', m_group3 = None, m_group4 = Some (js ''A'')\<rparr>"
          \<open>js ''e("Frame", {''\<close> "Some (js ''Frame'')" None \<open>js ''e("A", {}) spawnTre''\<close>]
      h a
    by (simp add: or_str_def truthy_str_def js_def)
qed

section \<open>The containment checker finds the resolved class again\<close>

text \<open>
  C8: when the resolver returns the class \<open>className\<close> for a window, the pattern matches
  somewhere in that window with that captured class, and the first loop of the
  containment checker ends at the brace of such a match; so \<open>propsStartIndex\<close> is not
  \<open>-1\<close>, and the branch \<open>propsStartIndex === -1\<close> is not taken in the query.
\<close>

theorem resolved_class_is_found_again:
  "getEnclosingClassName text = Some className \<Longrightarrow>
     (\<exists>i m. match_at text i = Some m \<and> or_str (m_group3 m) (m_group4 m) = Some className
        \<and> propsStartIndex_loop text className 0 (-1) = int i + int (length (m_text m)) - 1)
     \<and> propsStartIndex_loop text className 0 (-1) \<noteq> -1"
proof -
  assume "getEnclosingClassName text = Some className"
  from resolver_Some [OF this] obtain i m where
    m: "match_at text i = Some m" and last: "\<forall>j>i. match_at text j = None" and
    c: "or_str (m_group3 m) (m_group4 m) = Some className" by blast
  from last have "\<forall>j>i. \<forall>m. match_at text j = Some m \<longrightarrow>
      or_str (m_group3 m) (m_group4 m) \<noteq> Some className" by simp
  from props_loop_last [OF m c this, of 0 "-1"]
  have p: "propsStartIndex_loop text className 0 (-1) = int i + int (length (m_text m)) - 1"
    by simp
  moreover from match_at_brace [OF m] have "0 < length (m_text m)" by simp
  ultimately have "propsStartIndex_loop text className 0 (-1) \<noteq> -1" by linarith
  with m c p show ?thesis by blast
qed

theorem resolved_class_is_found_again_witness:
  "(\<exists>i m. match_at (js ''e(Frame, {'') i = Some m
      \<and> or_str (m_group3 m) (m_group4 m) = Some (js ''Frame'')
      \<and> propsStartIndex_loop (js ''e(Frame, {'') (js ''Frame'') 0 (-1)
          = int i + int (length (m_text m)) - 1)
   \<and> propsStartIndex_loop (js ''e(Frame, {'') (js ''Frame'') 0 (-1) \<noteq> -1"
proof -
  have "getEnclosingClassName (js ''e(Frame, {'') = Some (js ''Frame'')"
    by (simp add: match_eval scan_eval resolver_eval)
  from resolved_class_is_found_again [OF this] show ?thesis .
qed

section \<open>The containment checker: inside or closed\<close>

text \<open>
  C3: let the pattern match at index \<open>i\<close> with the class \<open>className\<close>, and at no greater
  index with that class. Then the first loop of the checker ends with \<open>propsStartIndex\<close>
  at the last code unit of that match, which is its \<open>{\<close>: the walk starts there. The
  cursor is reported inside exactly when there is no index behind the start and before
  the end of the window after which the depth is zero. When no match has the class, the
  cursor is reported not inside. When the checker reports not inside for the resolved
  class, the query returns no items. An object nested in the properties does not close
  the outer one; the brace that matches the first one does.
\<close>

theorem isInsidePropsObject_depth:
  "(match_at text i = Some m \<and> or_str (m_group3 m) (m_group4 m) = Some className
      \<and> (\<forall>j>i. \<forall>m'. match_at text j = Some m'
            \<longrightarrow> or_str (m_group3 m') (m_group4 m') \<noteq> Some className)
     \<longrightarrow> propsStartIndex_loop text className 0 (-1) = int (i + length (m_text m) - 1)
       \<and> text ! (i + length (m_text m) - 1) = 123
       \<and> (isInsidePropsObject text className
            \<longleftrightarrow> \<not> (\<exists>k. i + length (m_text m) - 1 < k \<and> k < length text
                     \<and> depth_at text (i + length (m_text m) - 1) k = 0)))
   \<and> ((\<forall>j m'. match_at text j = Some m'
            \<longrightarrow> or_str (m_group3 m') (m_group4 m') \<noteq> Some className)
     \<longrightarrow> \<not> isInsidePropsObject text className)
   \<and> (getEnclosingClassName text = Some className \<and> \<not> isInsidePropsObject text className
     \<longrightarrow> complete_in config text = Inr None)
   \<and> isInsidePropsObject (js ''e(Frame, { a = {}, '') (js ''Frame'')
   \<and> \<not> isInsidePropsObject (js ''e(Frame, { a = {} } '') (js ''Frame'')"
proof (intro conjI impI)
  assume a: "match_at text i = Some m \<and> or_str (m_group3 m) (m_group4 m) = Some className
      \<and> (\<forall>j>i. \<forall>m'. match_at text j = Some m'
            \<longrightarrow> or_str (m_group3 m') (m_group4 m') \<noteq> Some className)"
  let ?start = "i + length (m_text m) - 1"
  from a have m: "match_at text i = Some m"
    and c: "or_str (m_group3 m) (m_group4 m) = Some className"
    and l: "\<forall>j>i. \<forall>m'. match_at text j = Some m'
            \<longrightarrow> or_str (m_group3 m') (m_group4 m') \<noteq> Some className"
    by blast+
  note b = match_at_brace [OF m]
  from b show br: "text ! ?start = 123" by simp
  from b have lt: "?start < length text" by linarith
  have "propsStartIndex_loop text className 0 (-1) = int i + int (length (m_text m)) - 1"
    by (rule props_loop_last [OF m c l]) simp
  also from b have "\<dots> = int ?start" by linarith
  finally have p: "propsStartIndex_loop text className 0 (-1) = int ?start" .
  then show "propsStartIndex_loop text className 0 (-1) = int ?start" .
  have n: "int ?start \<noteq> -1" by linarith
  show "isInsidePropsObject text className
      \<longleftrightarrow> \<not> (\<exists>k. ?start < k \<and> k < length text \<and> depth_at text ?start k = 0)"
    unfolding isInsidePropsObject_def p Let_def
    using brace_loop_from_brace [OF lt br] n by (simp only: if_False nat_int)
next
  assume "\<forall>j m'. match_at text j = Some m'
      \<longrightarrow> or_str (m_group3 m') (m_group4 m') \<noteq> Some className"
  then have "propsStartIndex_loop text className 0 (-1) = -1"
    by (intro props_loop_no_class) simp
  then show "\<not> isInsidePropsObject text className"
    by (simp add: isInsidePropsObject_def)
next
  assume "getEnclosingClassName text = Some className \<and> \<not> isInsidePropsObject text className"
  then show "complete_in config text = Inr None"
    by (simp add: complete_in_def Let_def)
next
  show "isInsidePropsObject (js ''e(Frame, { a = {}, '') (js ''Frame'')"
    by (simp add: match_eval scan_eval containment_eval)
next
  show "\<not> isInsidePropsObject (js ''e(Frame, { a = {} } '') (js ''Frame'')"
    by (simp add: match_eval scan_eval containment_eval)
qed

theorem isInsidePropsObject_depth_witness:
  "propsStartIndex_loop (js ''e(Frame, {'') (js ''Frame'') 0 (-1) = 9
   \<and> isInsidePropsObject (js ''e(Frame, {'') (js ''Frame'')
   \<and> \<not> isInsidePropsObject [] (js ''Frame'')
   \<and> complete_in None (js ''e(Frame, {}'') = Inr None"
proof -
  let ?t = "js ''e(Frame, {''"
  let ?m = "\<lparr>m_index = 0, m_text = ?t, m_group3 = None, m_group4 = Some (js ''Frame'')\<rparr>"
  have b: "match_here ?t = Some (?t, None, Some (js ''Frame''))"
    by (simp add: match_eval)
  from match_at_suffix [OF b, of "[]"]
  have at: "match_at ?t 0 = Some ?m" and later: "\<forall>j>0. match_at ?t j = None"
    by simp_all
  have cls: "or_str (m_group3 ?m) (m_group4 ?m) = Some (js ''Frame'')"
    by (simp add: or_str_def truthy_str_def)
  from later have l: "\<forall>j>0. \<forall>m'. match_at ?t j = Some m'
      \<longrightarrow> or_str (m_group3 m') (m_group4 m') \<noteq> Some (js ''Frame'')" by simp
  have len: "length ?t = 10" by (simp add: js_def)
  have none: "\<not> (\<exists>k. 0 + length (m_text ?m) - 1 < k \<and> k < length ?t
      \<and> depth_at ?t (0 + length (m_text ?m) - 1) k = 0)"
    using len by auto
  have e: "\<forall>j m'. match_at [] j = Some m'
      \<longrightarrow> or_str (m_group3 m') (m_group4 m') \<noteq> Some (js ''Frame'')"
    by (simp add: match_at_def match_here_Nil)
  have r: "getEnclosingClassName (js ''e(Frame, {}'') = Some (js ''Frame'')"
    by (simp add: match_eval scan_eval resolver_eval)
  have o: "\<not> isInsidePropsObject (js ''e(Frame, {}'') (js ''Frame'')"
    by (simp add: match_eval scan_eval containment_eval)
  from isInsidePropsObject_depth [of ?t 0 ?m "js ''Frame''" None] at cls l none
  have 1: "isInsidePropsObject ?t (js ''Frame'')" by blast
  from isInsidePropsObject_depth [of ?t 0 ?m "js ''Frame''" None] at cls l
  have "propsStartIndex_loop ?t (js ''Frame'') 0 (-1) = int (0 + length (m_text ?m) - 1)"
    by blast
  with len have 0: "propsStartIndex_loop ?t (js ''Frame'') 0 (-1) = 9" by simp
  from isInsidePropsObject_depth [of "[]" 0 ?m "js ''Frame''" None] e
  have 2: "\<not> isInsidePropsObject [] (js ''Frame'')" by blast
  from isInsidePropsObject_depth [of "js ''e(Frame, {}''" 0 ?m "js ''Frame''" None] r o
  have 3: "complete_in None (js ''e(Frame, {}'') = Inr None" by blast
  from 0 1 2 3 show ?thesis by simp
qed

section \<open>The window\<close>

lemma window_append:
  assumes "length w = maxLookback"
  shows "window (pre @ w @ post) (length pre + maxLookback) = w"
  using assms by (simp add: window_def getText_def Let_def maxLookback_def)

lemma spaces_no_match: "match_at (replicate n 32) i = None"
proof -
  have "\<not> starts_call (replicate k 32)" for k
    using starts_call_shape [of "replicate k 32"] by (cases k) auto
  then have "match_here (replicate k 32) = None" for k
    by (cases "match_here (replicate k 32)") (auto dest: match_here_starts_call)
  then show ?thesis by (simp add: match_at_def)
qed

text \<open>
  C4: the window is the text before the cursor when that text has at most 2000 code
  units, and otherwise its last 2000 code units. So when 2000 code units \<open>w\<close> stand
  between any text \<open>pre\<close> and the cursor, the window is \<open>w\<close> and the query returns what
  it returns on \<open>w\<close> alone: nothing of \<open>pre\<close>, a call in it included, reaches the
  resolver or the checker.
\<close>

theorem window_lookback:
  "(length (getText document position) \<le> 2000
      \<longrightarrow> window document position = getText document position)
   \<and> (2000 < length (getText document position)
      \<longrightarrow> length (window document position) = 2000
        \<and> getText document position
            = take (length (getText document position) - 2000) (getText document position)
              @ window document position)
   \<and> (length w = 2000
      \<longrightarrow> window (pre @ w @ post) (length pre + 2000) = w
        \<and> provideCompletionItems config (pre @ w @ post) (length pre + 2000)
            = provideCompletionItems config w 2000)"
proof (intro conjI impI)
  assume "length w = 2000"
  then have w: "length w = maxLookback" by (simp add: maxLookback_def)
  from window_append [OF w, of pre post]
  show 1: "window (pre @ w @ post) (length pre + 2000) = w" by (simp add: maxLookback_def)
  from window_append [OF w, of "[]" "[]"] have "window w 2000 = w"
    by (simp add: maxLookback_def)
  with 1 show "provideCompletionItems config (pre @ w @ post) (length pre + 2000)
      = provideCompletionItems config w 2000"
    by (simp add: provideCompletionItems_def)
qed (simp_all add: window_def Let_def maxLookback_def)

theorem window_lookback_witness:
  "window (js ''e(Frame, {'') 10 = js ''e(Frame, {''
   \<and> length (window (replicate 2500 32) 2400) = 2000
   \<and> window (js ''e(Frame, {'' @ replicate 2000 32) 2010 = replicate 2000 32
   \<and> provideCompletionItems None (js ''e(Frame, {'' @ replicate 2000 32) 2010 = Inr None
   \<and> provideCompletionItems None (js ''e(Frame, {'') 10 \<noteq> Inr None"
proof -
  have a: "length (getText (js ''e(Frame, {'') 10) \<le> 2000" "getText (js ''e(Frame, {'') 10 = js ''e(Frame, {''"
    by (simp_all add: getText_def js_def)
  have b: "2000 < length (getText (replicate 2500 32) 2400)"
    by (simp add: getText_def)
  have c: "length (replicate 2000 (32::nat)) = 2000" "length (js ''e(Frame, {'') = 10"
    by (simp_all add: js_def)
  have "getEnclosingClassName (replicate 2000 32) = None"
    by (simp add: resolver_None_iff spaces_no_match)
  then have d: "provideCompletionItems None (replicate 2000 32) 2000 = Inr None"
    by (simp add: provideCompletionItems_def complete_in_def truthy_str_def window_def
        getText_def maxLookback_def)
  have e: "provideCompletionItems None (js ''e(Frame, {'') 10 \<noteq> Inr None"
    by (simp add: match_eval scan_eval resolver_eval containment_eval props_eval query_eval)
  from window_lookback [of "js ''e(Frame, {''" 10 "[]" "[]" "[]" None]
    window_lookback [of "replicate 2500 32" 2400 "[]" "[]" "[]" None]
    window_lookback [of "[]" 0 "replicate 2000 32" "js ''e(Frame, {''" "[]" None]
    a b c d e
  show ?thesis by simp
qed

section \<open>Exceptions\<close>

text \<open>
  The query can only throw at \<open>props.map\<close>, and only for a class name that neither map
  has as an own property and that names a property of \<open>Object.prototype\<close>.
\<close>

lemma throws_only_for_prototype_names:
  assumes "provideCompletionItems config document position = Inl e"
  shows "\<exists>cn. getEnclosingClassName (window document position) = Some cn
           \<and> (case config of None \<Rightarrow> True | Some userMap \<Rightarrow> userMap cn = None)
           \<and> defaultPropsMap cn = None
           \<and> object_prototype cn \<noteq> JSUndefined"
proof -
  let ?t = "window document position"
  from assms obtain cn where cn: "getEnclosingClassName ?t = Some cn"
    by (cases "getEnclosingClassName ?t")
      (auto simp: provideCompletionItems_def complete_in_def truthy_str_def)
  with assms have p: "\<forall>names. getPropsForClass config cn \<noteq> JSArray names"
    "getPropsForClass config cn \<noteq> JSUndefined"
    by (auto simp: provideCompletionItems_def complete_in_def Let_def truthy_def
        split: if_splits jsvalue.splits)
  have d: "defaultPropsMap cn = None"
  proof (cases "defaultPropsMap cn")
    case (Some ps)
    with p(1) defaultPropsMap_own [OF Some] show ?thesis
      by (cases config)
        (auto simp: getPropsForClass_def get_property_def or_value_def truthy_def
          split: option.splits)
  qed simp
  have u: "case config of None \<Rightarrow> True | Some userMap \<Rightarrow> userMap cn = None"
    using p(1)
    by (cases config)
      (auto simp: getPropsForClass_def get_property_def or_value_def truthy_def
        split: option.splits)
  have "object_prototype cn \<noteq> JSUndefined"
    using p(2) d u
    by (cases config)
      (auto simp: getPropsForClass_def get_property_def or_value_def truthy_def
        split: option.splits)
  with cn d u show ?thesis by blast
qed

text \<open>The other ways out of the query return \<open>undefined\<close>.\<close>

lemma other_failure_modes_return_undefined:
  "(getEnclosingClassName textBeforeCursor = None
      \<longrightarrow> complete_in config textBeforeCursor = Inr None)
   \<and> (getEnclosingClassName textBeforeCursor = Some cn
       \<and> (getPropsForClass config cn = JSUndefined \<or> getPropsForClass config cn = JSArray []
            \<or> \<not> isInsidePropsObject textBeforeCursor cn)
      \<longrightarrow> complete_in config textBeforeCursor = Inr None)"
  by (auto simp: complete_in_def Let_def truthy_str_def truthy_def length_of_def)

text \<open>
  C7 fails on the code: in a document that holds \<open>e(constructor, {\<close> with the cursor
  behind the brace, \<open>defaultPropsMap["constructor"]\<close> is the function \<open>Object\<close>, whose
  \<open>length\<close> is 1, the cursor is inside the object, and \<open>props.map\<close> is not a function:
  the query throws a \<open>TypeError\<close>, with or without a user map.
\<close>

theorem provideCompletionItems_throws:
  "provideCompletionItems None (js ''e(constructor, {'') 16 = Inl TypeError
   \<and> provideCompletionItems (Some [js ''Frame'' \<mapsto> [js ''Size'']]) (js ''e(constructor, {'') 16
       = Inl TypeError
   \<and> provideCompletionItems None (js ''local x = e(constructor, {'') 1000 = Inl TypeError"
  by (simp add: match_eval scan_eval resolver_eval containment_eval props_eval query_eval)

text \<open>
  C6 fails on the code by the same defect: \<open>hasOwnProperty\<close> is a class found in neither
  map, and the outcome of the query is a \<open>TypeError\<close>, not \<open>undefined\<close>.
\<close>

theorem class_in_neither_map_throws:
  \<open>[js ''Frame'' \<mapsto> [js ''Size'']] (js ''hasOwnProperty'') = None
   \<and> defaultPropsMap (js ''hasOwnProperty'') = None
   \<and> provideCompletionItems (Some [js ''Frame'' \<mapsto> [js ''Size'']])
         (js ''React.createElement("hasOwnProperty", {'') 39
       = Inl TypeError\<close>
  by (simp add: match_eval scan_eval resolver_eval containment_eval props_eval query_eval)

section \<open>Determinism\<close>

text \<open>
  Each scan leaves its RegExp object with \<open>lastIndex = 0\<close>, and returns what the scan
  without the store returns from the \<open>lastIndex\<close> it starts with.
\<close>

lemma resolver_loop_st:
  "getEnclosingClassName_loop_st pattern text acc st =
     (getEnclosingClassName_loop text (regexp_lastIndex st pattern) acc,
      st\<lparr>regexp_lastIndex := (regexp_lastIndex st)(pattern := 0)\<rparr>)"
proof (induction "length text - regexp_lastIndex st pattern" arbitrary: st acc rule: less_induct)
  case less
  let ?l = "regexp_lastIndex st pattern"
  show ?case
  proof (cases "exec text ?l")
    case (Pair r l')
    show ?thesis
    proof (cases r)
      case None
      with Pair have "l' = 0" by (auto simp: exec_def split: option.splits)
      with Pair None show ?thesis
        by (simp add: getEnclosingClassName_loop_st.simps [of pattern "text" acc st]
            getEnclosingClassName_loop.simps [of "text" ?l acc] exec_st_def)
    next
      case (Some m)
      let ?st' = "st\<lparr>regexp_lastIndex := (regexp_lastIndex st)(pattern := l')\<rparr>"
      from Pair Some have e: "exec_st pattern text st = (Some m, ?st')"
        by (simp add: exec_st_def)
      from exec_st_Some [OF e]
      have "length text - regexp_lastIndex ?st' pattern < length text - ?l" .
      from less.hyps [OF this] Pair Some e show ?thesis
        by (simp add: getEnclosingClassName_loop_st.simps [of pattern "text" acc st]
            getEnclosingClassName_loop.simps [of "text" ?l acc] Let_def)
    qed
  qed
qed

lemma props_loop_st:
  "propsStartIndex_loop_st pattern text className acc st =
     (propsStartIndex_loop text className (regexp_lastIndex st pattern) acc,
      st\<lparr>regexp_lastIndex := (regexp_lastIndex st)(pattern := 0)\<rparr>)"
proof (induction "length text - regexp_lastIndex st pattern" arbitrary: st acc rule: less_induct)
  case less
  let ?l = "regexp_lastIndex st pattern"
  show ?case
  proof (cases "exec text ?l")
    case (Pair r l')
    show ?thesis
    proof (cases r)
      case None
      with Pair have "l' = 0" by (auto simp: exec_def split: option.splits)
      with Pair None show ?thesis
        by (simp add: propsStartIndex_loop_st.simps [of pattern "text" className acc st]
            propsStartIndex_loop.simps [of "text" className ?l acc] exec_st_def)
    next
      case (Some m)
      let ?st' = "st\<lparr>regexp_lastIndex := (regexp_lastIndex st)(pattern := l')\<rparr>"
      from Pair Some have e: "exec_st pattern text st = (Some m, ?st')"
        by (simp add: exec_st_def)
      from exec_st_Some [OF e]
      have "length text - regexp_lastIndex ?st' pattern < length text - ?l" .
      from less.hyps [OF this] Pair Some e show ?thesis
        by (simp add: propsStartIndex_loop_st.simps [of pattern "text" className acc st]
            propsStartIndex_loop.simps [of "text" className ?l acc] Let_def)
    qed
  qed
qed

lemma getEnclosingClassName_st_eq:
  "getEnclosingClassName_st text st =
     (getEnclosingClassName text,
      st\<lparr>regexp_lastIndex := (regexp_lastIndex st)(regexp_count st := 0),
         regexp_count := Suc (regexp_count st)\<rparr>)"
  by (simp add: getEnclosingClassName_st_def new_RegExp_def resolver_loop_st
      getEnclosingClassName_def)

lemma isInsidePropsObject_st_eq:
  "isInsidePropsObject_st text className st =
     (isInsidePropsObject text className,
      st\<lparr>regexp_lastIndex := (regexp_lastIndex st)(regexp_count st := 0),
         regexp_count := Suc (regexp_count st)\<rparr>)"
  by (simp add: isInsidePropsObject_st_def new_RegExp_def props_loop_st
      isInsidePropsObject_def Let_def)

text \<open>
  A query creates its RegExp objects and changes nothing else in the store; what it
  returns depends on the store through the built-in map only, which no query changes.
\<close>

lemma getPropsForClass_st_eq:
  "builtin_map st = defaultPropsMap \<Longrightarrow>
     getPropsForClass_st config className st = getPropsForClass config className"
  by (cases config) (simp_all add: getPropsForClass_st_def getPropsForClass_def)

lemma getPropsForClass_st_cong:
  "builtin_map st = builtin_map st' \<Longrightarrow>
     getPropsForClass_st config className st = getPropsForClass_st config className st'"
  by (cases config) (simp_all add: getPropsForClass_st_def)

lemma query_st_result:
  "builtin_map st = defaultPropsMap \<Longrightarrow>
     fst (provideCompletionItems_st config document position st)
       = provideCompletionItems config document position"
  by (auto simp: provideCompletionItems_st_def complete_in_st_def provideCompletionItems_def complete_in_def
      getEnclosingClassName_st_eq isInsidePropsObject_st_eq getPropsForClass_st_def
      getPropsForClass_def Let_def
      split: option.splits jsvalue.splits)

lemma query_st_store_independent:
  "builtin_map st = builtin_map st' \<Longrightarrow>
     fst (provideCompletionItems_st config document position st)
       = fst (provideCompletionItems_st config document position st')"
  by (auto simp: provideCompletionItems_st_def complete_in_st_def
      getEnclosingClassName_st_eq isInsidePropsObject_st_eq getPropsForClass_st_def Let_def
      split: option.splits jsvalue.splits)

lemma query_st_frame:
  "builtin_map (snd (provideCompletionItems_st config document position st)) = builtin_map st
   \<and> regexp_count st < regexp_count (snd (provideCompletionItems_st config document position st))"
  by (auto simp: provideCompletionItems_st_def complete_in_st_def
      getEnclosingClassName_st_eq isInsidePropsObject_st_eq Let_def
      split: option.splits jsvalue.splits)

lemma run_queries_frame:
  "builtin_map (run_queries qs st) = builtin_map st
   \<and> regexp_count st \<le> regexp_count (run_queries qs st)"
proof (induction qs arbitrary: st)
  case Nil
  show ?case by simp
next
  case (Cons q qs)
  obtain config document position where q: "q = (config, document, position)"
    by (cases q)
  from Cons [of "snd (provideCompletionItems_st config document position st)"]
    query_st_frame [of config document position st] q
  show ?case by simp
qed

text \<open>
  C10: a second query with the same configuration, document and position, run on the
  store that the first one left behind, returns what the first one returned, although the
  store is not the same (the first query has created RegExp objects in it); the same
  holds after any run of other queries; and after any run of queries from the loading of
  the module on, the result is \<open>provideCompletionItems\<close> of the three inputs, the function
  that keeps no state.
\<close>

theorem provideCompletionItems_no_hidden_state:
  "fst (provideCompletionItems_st config document position
         (snd (provideCompletionItems_st config document position st)))
     = fst (provideCompletionItems_st config document position st)
   \<and> snd (provideCompletionItems_st config document position st) \<noteq> st
   \<and> fst (provideCompletionItems_st config document position (run_queries earlier st))
     = fst (provideCompletionItems_st config document position st)
   \<and> fst (provideCompletionItems_st config document position (run_queries earlier initial_store))
     = provideCompletionItems config document position"
proof (intro conjI)
  show "fst (provideCompletionItems_st config document position
         (snd (provideCompletionItems_st config document position st)))
     = fst (provideCompletionItems_st config document position st)"
    by (rule query_st_store_independent) (simp add: query_st_frame)
  show "snd (provideCompletionItems_st config document position st) \<noteq> st"
    using query_st_frame [of config document position st] by auto
  show "fst (provideCompletionItems_st config document position (run_queries earlier st))
     = fst (provideCompletionItems_st config document position st)"
    by (rule query_st_store_independent) (simp add: run_queries_frame)
  show "fst (provideCompletionItems_st config document position (run_queries earlier initial_store))
     = provideCompletionItems config document position"
    by (rule query_st_result) (simp add: run_queries_frame initial_store_def)
qed

theorem provideCompletionItems_no_hidden_state_witness:
  "fst (provideCompletionItems_st None (js ''e(Frame, {'') 10
         (snd (provideCompletionItems_st None (js ''e(Frame, {'') 10 initial_store)))
     = fst (provideCompletionItems_st None (js ''e(Frame, {'') 10 initial_store)
   \<and> provideCompletionItems_st None (js ''e(Frame, {}'') 11 initial_store
     = (Inr None,
        \<lparr>regexp_lastIndex = (\<lambda>_. 0), regexp_count = 2, builtin_map = defaultPropsMap\<rparr>)
   \<and> fst (provideCompletionItems_st None (js ''e(Frame, {}'') 11
         (run_queries [(None, js ''e(Frame, {'', 10), (Some Map.empty, js ''e(A, {'', 7)]
            initial_store))
     = Inr None"
proof -
  have e: "provideCompletionItems_st None (js ''e(Frame, {}'') 11 initial_store
     = (Inr None,
        \<lparr>regexp_lastIndex = (\<lambda>_. 0), regexp_count = 2, builtin_map = defaultPropsMap\<rparr>)"
    by (simp add: provideCompletionItems_st_def complete_in_st_def getEnclosingClassName_st_eq
        isInsidePropsObject_st_eq getPropsForClass_st_def initial_store_def
        match_eval scan_eval resolver_eval containment_eval props_eval query_eval fun_upd_idem)
  from provideCompletionItems_no_hidden_state
      [of None "js ''e(Frame, {''" 10 initial_store "[]"]
    provideCompletionItems_no_hidden_state
      [of None "js ''e(Frame, {}''" 11 initial_store
        "[(None, js ''e(Frame, {'', 10), (Some Map.empty, js ''e(A, {'', 7)]"]
    e
  show ?thesis by simp
qed

end
